theory Spec2Isabelle
  imports Complex_Main
begin

section \<open>The replay driver (src/replay/src/main.go)\<close>

text \<open>
  The driver parses its flags, opens the operation log, starts a dispatcher that feeds a
  channel of operations, starts \<open>workers\<close> goroutines that drain the channel, starts a
  reporting goroutine and waits for the workers. The sequential part (flags and set-up) is
  a function into a sum type whose left injection is the panic of \<open>panicOnError\<close>; the
  concurrent part is a step function over an explicit state, one step of one goroutine at
  a time, driven by a schedule.
\<close>

subsection \<open>Flags\<close>

type_synonym err = string

text \<open>
  The package-level variables that \<open>init\<close> binds to flags. Go's \<open>int\<close> is 64 bits wide
  here (the constant 4294967295 is assigned to one) and no arithmetic that could leave
  that range is done on the flags, so they are integers. \<open>sampleRate\<close> is a float64 that
  the driver only hands on; its type is left open.
\<close>

record 'f flags =
  opsFilename :: string
  url :: string
  workers :: int
  maxOps :: int
  style :: string
  sampleRate :: 'f

text \<open>\<open>parseFlags\<close>, after \<open>flag.Parse()\<close> has filled the variables.\<close>

definition parseFlags :: "'f flags \<Rightarrow> err + 'f flags" where
  "parseFlags f =
     (if style f \<noteq> ''stress'' \<and> style f \<noteq> ''real'' then
        Inl (''Cannot recognize the style: '' @ style f)
      else if workers f \<le> 0 then
        Inl ''`workers` should be a positive number''
      else if maxOps f = 0 then
        Inr (f\<lparr>maxOps := 4294967295\<rparr>)
      else Inr f)"

subsection \<open>The world outside the driver\<close>

text \<open>
  What the file system and the database answer. \<open>openLog n name\<close> is the outcome of the
  \<open>n\<close>-th call of \<open>NewFileByLineOpsReader(name)\<close> in a run: an error, or the records that
  the reader will yield. \<open>dial i u\<close> is the error of \<open>mgo.Dial(u)\<close> in worker \<open>i\<close>, if any.
  \<open>qcap\<close> is the capacity of the channel that the dispatcher creates.
\<close>

record 'op env =
  openLog :: "nat \<Rightarrow> string \<Rightarrow> err + 'op list"
  dial :: "nat \<Rightarrow> string \<Rightarrow> err option"
  qcap :: nat

subsection \<open>Operation readers\<close>

text \<open>
  Modelled from the spec: the readers of package \<open>replay\<close> (\<open>NewFileByLineOpsReader\<close>,
  \<open>NewCyclicOpsReader\<close> and their \<open>Next\<close>) are not among the sources. Section 4.1: a log
  source is a finite, forward-only sequence of records that signals its end (here
  \<open>None\<close>) distinctly from an error; the cyclic source wraps a factory, and on exhaustion
  of the current underlying source discards it and invokes the factory again. The number
  kept by \<open>Cyclic\<close> counts the factory's invocations so far. The spec does not say what
  \<open>Next\<close> returns when the fresh source has no record either (the log is empty when it is
  opened again). Here \<open>Next\<close> then returns its \<open>nil\<close>, so that a dispatcher over such a log
  goes on to its termination markers and the run ends, as section 8 asks of every run
  (``exactly workers termination markers, and the run terminates'').
\<close>

datatype 'op reader = FileByLine "'op list" | Cyclic "'op list" nat

definition NewFileByLineOpsReader :: "'op env \<Rightarrow> nat \<Rightarrow> string \<Rightarrow> err + 'op list" where
  "NewFileByLineOpsReader env n name = openLog env n name"

text \<open>
  The closure that \<open>main\<close> passes to \<open>NewCyclicOpsReader\<close>: it opens the log again and
  panics on an error (the left injection).
\<close>

definition factory :: "'op env \<Rightarrow> string \<Rightarrow> nat \<Rightarrow> err + 'op list" where
  "factory env name n =
     (case NewFileByLineOpsReader env n name of Inl e \<Rightarrow> Inl e | Inr r \<Rightarrow> Inr r)"

definition NewCyclicOpsReader :: "(nat \<Rightarrow> err + 'op list) \<Rightarrow> err + 'op reader" where
  "NewCyclicOpsReader mk = (case mk 0 of Inl e \<Rightarrow> Inl e | Inr r \<Rightarrow> Inr (Cyclic r 1))"

fun reader_Next :: "(nat \<Rightarrow> err + 'op list) \<Rightarrow> 'op reader \<Rightarrow> err + 'op option \<times> 'op reader" where
  "reader_Next mk (FileByLine []) = Inr (None, FileByLine [])"
| "reader_Next mk (FileByLine (x # xs)) = Inr (Some x, FileByLine xs)"
| "reader_Next mk (Cyclic (x # xs) n) = Inr (Some x, Cyclic xs n)"
| "reader_Next mk (Cyclic [] n) =
     (case mk n of
        Inl e \<Rightarrow> Inl e
      | Inr [] \<Rightarrow> Inr (None, Cyclic [] (Suc n))
      | Inr (x # xs) \<Rightarrow> Inr (Some x, Cyclic xs (Suc n)))"

text \<open>\<open>pull mk k rd\<close>: the results of \<open>k\<close> successive calls of \<open>Next\<close> on a reader.\<close>

fun pull ::
  "(nat \<Rightarrow> err + 'op list) \<Rightarrow> nat \<Rightarrow> 'op reader \<Rightarrow> err + 'op option list \<times> 'op reader" where
  "pull mk 0 rd = Inr ([], rd)"
| "pull mk (Suc k) rd =
     (case reader_Next mk rd of
        Inl e \<Rightarrow> Inl e
      | Inr (y, rd') \<Rightarrow>
          (case pull mk k rd' of
             Inl e \<Rightarrow> Inl e
           | Inr (ys, rd'') \<Rightarrow> Inr (y # ys, rd'')))"

subsection \<open>The state of a run\<close>

text \<open>
  Where each goroutine stands. A worker: before \<open>mgo.Dial\<close>; at the receive
  \<open>op := <-opsChan\<close>; holding an operation it has received and not yet executed; after the
  \<open>break\<close>, at the send \<open>exit <- 1\<close>; past that send. The reporting goroutine: at the test of
  its loop; in \<open>time.Sleep\<close> before the \<open>report()\<close> of the loop body; past the loop, before
  the deferred \<open>report()\<close>; finished. The dispatcher: in its loop; holding a record that it
  has read and not yet sent; sending termination markers (so many sent so far); stopped.
  Two lists of counters, one entry per worker, record how many termination markers the
  worker has received and how many times it has sent on \<open>exit\<close>; the program does not
  read them.
\<close>

datatype 'op wstate = WStart | WRecv | WExec 'op | WExit | WDone

datatype rstate = RCheck | RSleep | RFinal | RDone

datatype 'op dstate = DLoop | DSend 'op | DMarkers nat | DStopped

record ('op, 'f) sys =
  cfg :: "'f flags"
  reader :: "'op reader"
  dcap :: int
  released :: int
  dpc :: "'op dstate"
  opsChan :: "'op option list"
  latencyCap :: int
  wks :: "'op wstate list"
  markersSeen :: "nat list"
  exitSent :: "nat list"
  opsExecuted :: int
  received :: int
  returned :: bool
  rpc :: rstate
  periodic :: nat
  final :: nat
  crashed :: "err option"

subsection \<open>Set-up: \<open>main\<close> up to the wait for the workers\<close>

text \<open>
  What \<open>main\<close> has constructed, in order, when it panics or reaches its final loop.
\<close>

datatype 'f component =
    FileByLineOpsReader string
  | CyclicOpsReader
  | BestEffortOpsDispatcher int
  | ByTimeOpsDispatcher int
  | LatencyChan int
  | ExitChan
  | StatsCollectorSampling nat 'f
  | WorkerGoroutine nat
  | ReporterGoroutine

definition spawn :: "'f flags \<Rightarrow> 'f component list" where
  "spawn f =
     concat (map (\<lambda>i. [StatsCollectorSampling i (sampleRate f), WorkerGoroutine i])
                 [0..<nat (workers f)])
     @ [ReporterGoroutine]"

definition start :: "'f flags \<Rightarrow> 'op reader \<Rightarrow> ('op, 'f) sys" where
  "start f rd =
     \<lparr>cfg = f, reader = rd, dcap = maxOps f, released = 0, dpc = DLoop, opsChan = [],
      latencyCap = workers f, wks = replicate (nat (workers f)) WStart,
      markersSeen = replicate (nat (workers f)) 0, exitSent = replicate (nat (workers f)) 0,
      opsExecuted = 0, received = 0, returned = False,
      rpc = RCheck, periodic = 0, final = 0, crashed = None\<rparr>"

definition main_setup ::
  "'op env \<Rightarrow> 'f flags \<Rightarrow> 'f component list \<times> (err + ('op, 'f) sys)" where
  "main_setup env f0 =
     (case parseFlags f0 of
        Inl e \<Rightarrow> ([], Inl e)
      | Inr f \<Rightarrow>
          if style f = ''stress'' then
            (case NewFileByLineOpsReader env 0 (opsFilename f) of
               Inl e \<Rightarrow> ([], Inl e)
             | Inr r \<Rightarrow>
                 ([FileByLineOpsReader (opsFilename f), BestEffortOpsDispatcher (maxOps f),
                   LatencyChan (workers f), ExitChan] @ spawn f,
                  Inr (start f (FileByLine r))))
          else
            (case NewCyclicOpsReader (factory env (opsFilename f)) of
               Inl e \<Rightarrow> ([], Inl e)
             | Inr rd \<Rightarrow>
                 ([FileByLineOpsReader (opsFilename f), CyclicOpsReader,
                   ByTimeOpsDispatcher (maxOps f), LatencyChan (workers f), ExitChan]
                  @ spawn f,
                  Inr (start f rd))))"

subsection \<open>One step of one goroutine\<close>

definition crash :: "err \<Rightarrow> ('op, 'f) sys \<Rightarrow> ('op, 'f) sys" where
  "crash e s = s\<lparr>crashed := Some e\<rparr>"

text \<open>
  Modelled from the spec: the dispatchers of package \<open>replay\<close>
  (\<open>NewBestEffortOpsDispatcher\<close>, \<open>NewByTimeOpsDispatcher\<close>) are not among the sources.
  Sections 4.2 and 5: the dispatcher pulls from its reader and pushes onto a bounded
  queue; it stops once \<open>maxOps\<close> operations have been released or the reader reports its
  end, and then emits exactly one termination marker (\<open>nil\<close>, here \<open>None\<close>) per worker. The
  two pacing policies differ only in when a record is released; a schedule already
  delays a step for any length of time, so both have this step. A panic of the factory
  that the cyclic reader invokes is raised in the dispatcher's goroutine.
\<close>

definition dispatcher_step :: "'op env \<Rightarrow> ('op, 'f) sys \<Rightarrow> ('op, 'f) sys" where
  "dispatcher_step env s =
     (case dpc s of
        DLoop \<Rightarrow>
          if released s < dcap s then
            (case reader_Next (factory env (opsFilename (cfg s))) (reader s) of
               Inl e \<Rightarrow> crash e s
             | Inr (None, rd) \<Rightarrow> s\<lparr>reader := rd, dpc := DMarkers 0\<rparr>
             | Inr (Some x, rd) \<Rightarrow> s\<lparr>reader := rd, dpc := DSend x\<rparr>)
          else s\<lparr>dpc := DMarkers 0\<rparr>
      | DSend x \<Rightarrow>
          if length (opsChan s) < qcap env then
            s\<lparr>opsChan := opsChan s @ [Some x], released := released s + 1, dpc := DLoop\<rparr>
          else s
      | DMarkers k \<Rightarrow>
          if k < nat (workers (cfg s)) then
            (if length (opsChan s) < qcap env then
               s\<lparr>opsChan := opsChan s @ [None], dpc := DMarkers (Suc k)\<rparr>
             else s)
          else s\<lparr>dpc := DStopped\<rparr>
      | DStopped \<Rightarrow> s)"

text \<open>
  \<open>fetch\<close>: dial (panic on an error), then receive until \<open>nil\<close>; each operation received
  is executed and counted with \<open>atomic.AddInt64(&opsExecuted, 1)\<close>; after the loop the
  worker sends on the unbuffered channel \<open>exit\<close>, which succeeds when \<open>main\<close> is at its
  receive, that is while \<open>received < workers\<close>. \<open>exec.Execute\<close> (package \<open>replay\<close>) is
  taken to return; it touches nothing of this state, so it shares a step with the
  increment that follows it.
\<close>

definition worker_step :: "'op env \<Rightarrow> nat \<Rightarrow> ('op, 'f) sys \<Rightarrow> ('op, 'f) sys" where
  "worker_step env i s =
     (if i < length (wks s) then
        (case wks s ! i of
           WStart \<Rightarrow>
             (case dial env i (url (cfg s)) of
                Some e \<Rightarrow> crash e s
              | None \<Rightarrow> s\<lparr>wks := (wks s)[i := WRecv]\<rparr>)
         | WRecv \<Rightarrow>
             (case opsChan s of
                [] \<Rightarrow> s
              | None # q \<Rightarrow>
                  s\<lparr>opsChan := q, wks := (wks s)[i := WExit],
                    markersSeen := (markersSeen s)[i := Suc (markersSeen s ! i)]\<rparr>
              | Some x # q \<Rightarrow> s\<lparr>opsChan := q, wks := (wks s)[i := WExec x]\<rparr>)
         | WExec x \<Rightarrow> s\<lparr>opsExecuted := opsExecuted s + 1, wks := (wks s)[i := WRecv]\<rparr>
         | WExit \<Rightarrow>
             if received s < workers (cfg s) then
               s\<lparr>received := received s + 1, wks := (wks s)[i := WDone],
                 exitSent := (exitSent s)[i := Suc (exitSent s ! i)]\<rparr>
             else s
         | WDone \<Rightarrow> s)
      else s)"

text \<open>
  The reporting goroutine: \<open>defer report()\<close>, then
  \<open>for opsExecuted < int64(maxOps) { time.Sleep(5 * time.Second); report() }\<close>. The
  counters \<open>periodic\<close> and \<open>final\<close> count the reports of the loop body and the deferred one.
\<close>

definition reporter_step :: "('op, 'f) sys \<Rightarrow> ('op, 'f) sys" where
  "reporter_step s =
     (case rpc s of
        RCheck \<Rightarrow>
          if opsExecuted s < maxOps (cfg s) then s\<lparr>rpc := RSleep\<rparr> else s\<lparr>rpc := RFinal\<rparr>
      | RSleep \<Rightarrow> s\<lparr>rpc := RCheck, periodic := Suc (periodic s)\<rparr>
      | RFinal \<Rightarrow> s\<lparr>rpc := RDone, final := Suc (final s)\<rparr>
      | RDone \<Rightarrow> s)"

text \<open>
  The last loop of \<open>main\<close>: \<open>for received < workers { <-exit; received += 1 }\<close>. The
  receive is the other half of a worker's send and is taken in the worker's step; when
  the test fails \<open>main\<close> returns.
\<close>

definition main_step :: "('op, 'f) sys \<Rightarrow> ('op, 'f) sys" where
  "main_step s = (if received s < workers (cfg s) then s else s\<lparr>returned := True\<rparr>)"

datatype tid = Dispatcher | Worker nat | Reporter | Main

text \<open>
  When \<open>main\<close> has returned the process is over, and so it is after a panic in any
  goroutine: no goroutine takes a step from there.
\<close>

definition step :: "'op env \<Rightarrow> tid \<Rightarrow> ('op, 'f) sys \<Rightarrow> ('op, 'f) sys" where
  "step env t s =
     (if returned s \<or> crashed s \<noteq> None then s
      else case t of
        Dispatcher \<Rightarrow> dispatcher_step env s
      | Worker i \<Rightarrow> worker_step env i s
      | Reporter \<Rightarrow> reporter_step s
      | Main \<Rightarrow> main_step s)"

fun run :: "'op env \<Rightarrow> ('op, 'f) sys \<Rightarrow> tid list \<Rightarrow> ('op, 'f) sys" where
  "run env s [] = s"
| "run env s (t # ts) = run env (step env t s) ts"

subsection \<open>Accesses to the counter \<open>opsExecuted\<close>\<close>

text \<open>
  How the next step of a goroutine touches the variable \<open>opsExecuted\<close>, if it does. A
  worker that holds an operation adds to it with \<open>atomic.AddInt64\<close>. The reporting
  goroutine reads the variable itself, with no call into \<open>sync/atomic\<close> and under no lock:
  in the test of its loop (\<open>opsExecuted < int64(maxOps)\<close>) and as an argument of
  \<open>log.Printf\<close> in \<open>report\<close>, which runs after the sleep and once more when deferred.
\<close>

datatype access = AtomicAdd | PlainRead

definition counter_access :: "tid \<Rightarrow> ('op, 'f) sys \<Rightarrow> access option" where
  "counter_access t s =
     (if returned s \<or> crashed s \<noteq> None then None
      else case t of
        Worker i \<Rightarrow>
          (if i < length (wks s) then
             (case wks s ! i of WExec x \<Rightarrow> Some AtomicAdd | _ \<Rightarrow> None)
           else None)
      | Reporter \<Rightarrow>
          (case rpc s of
             RCheck \<Rightarrow> Some PlainRead
           | RSleep \<Rightarrow> Some PlainRead
           | RFinal \<Rightarrow> Some PlainRead
           | RDone \<Rightarrow> None)
      | _ \<Rightarrow> None)"

subsection \<open>Concrete inputs\<close>

text \<open>
  A world where the log holds three records and every dial succeeds, and a command line
  \<open>-ops_filename ops.json -url localhost:27017 -workers 2 -maxOps 2 -style stress\<close>.
\<close>

definition env_ok :: "nat env" where
  "env_ok = \<lparr>openLog = (\<lambda>n name. Inr [10, 20, 30]), dial = (\<lambda>i u. None), qcap = 2\<rparr>"

definition flags_ok :: "real flags" where
  "flags_ok = \<lparr>opsFilename = ''ops.json'', url = ''localhost:27017'', workers = 2, maxOps = 2,
               style = ''stress'', sampleRate = 0\<rparr>"

text \<open>
  A schedule that runs this command line to the end: the dispatcher releases two
  operations, both workers dial and take one each, the dispatcher sends its two
  markers and stops, the workers execute, take a marker each and signal, and \<open>main\<close>
  returns. The reporting goroutine is not scheduled before \<open>main\<close> returns.
\<close>

definition sched_ok :: "tid list" where
  "sched_ok =
     [Dispatcher, Dispatcher, Dispatcher, Dispatcher, Dispatcher,
      Worker 0, Worker 1, Worker 0, Worker 1,
      Dispatcher, Dispatcher, Dispatcher,
      Worker 0, Worker 1, Worker 0, Worker 1, Worker 0, Worker 1, Main]"

text \<open>
  The same command line with \<open>-style real\<close>, and worlds where the log cannot be opened,
  where it can be opened once and holds one record, and where the second worker cannot
  reach the database.
\<close>

definition flags_real :: "real flags" where
  "flags_real = flags_ok\<lparr>style := ''real''\<rparr>"

definition env_nolog :: "nat env" where
  "env_nolog = env_ok\<lparr>openLog := (\<lambda>n name. Inl ''no such file or directory'')\<rparr>"

definition env_reopen :: "nat env" where
  "env_reopen =
     env_ok\<lparr>openLog := (\<lambda>n name. if n = 0 then Inr [10] else Inl ''no such file or directory'')\<rparr>"

definition env_nodial :: "nat env" where
  "env_nodial = env_ok\<lparr>dial := (\<lambda>i u. if i = 1 then Some ''no reachable servers'' else None)\<rparr>"

subsection \<open>Invariant of a run\<close>

fun holding :: "'op wstate \<Rightarrow> bool" where
  "holding (WExec x) = True"
| "holding w = False"

definition past :: "'op wstate \<Rightarrow> bool" where
  "past w = (w = WExit \<or> w = WDone)"

definition finished :: "'op wstate \<Rightarrow> bool" where
  "finished w = (w = WDone)"

definition cnt :: "('a \<Rightarrow> bool) \<Rightarrow> 'a list \<Rightarrow> nat" where
  "cnt P xs = length (filter P xs)"

definition ops_in :: "'op option list \<Rightarrow> nat" where
  "ops_in q = cnt (\<lambda>x. x \<noteq> None) q"

definition markers_in :: "'op option list \<Rightarrow> nat" where
  "markers_in q = cnt (\<lambda>x. x = None) q"

fun markers_last :: "'op option list \<Rightarrow> bool" where
  "markers_last [] = True"
| "markers_last (Some x # q) = markers_last q"
| "markers_last (None # q) = (ops_in q = 0)"

fun markers_sent :: "nat \<Rightarrow> 'op dstate \<Rightarrow> nat" where
  "markers_sent W DLoop = 0"
| "markers_sent W (DSend x) = 0"
| "markers_sent W (DMarkers k) = k"
| "markers_sent W DStopped = W"

definition invariant :: "('op, 'f) sys \<Rightarrow> bool" where
  "invariant s \<longleftrightarrow>
     0 < workers (cfg s) \<and>
     length (wks s) = nat (workers (cfg s)) \<and>
     markersSeen s = map (\<lambda>w. if past w then 1 else 0) (wks s) \<and>
     exitSent s = map (\<lambda>w. if finished w then 1 else 0) (wks s) \<and>
     received s = int (cnt finished (wks s)) \<and>
     opsExecuted s + int (cnt holding (wks s)) + int (ops_in (opsChan s)) = released s \<and>
     markers_sent (nat (workers (cfg s))) (dpc s) = markers_in (opsChan s) + cnt past (wks s) \<and>
     markers_sent (nat (workers (cfg s))) (dpc s) \<le> nat (workers (cfg s)) \<and>
     markers_last (opsChan s) \<and>
     (0 < cnt past (wks s) \<longrightarrow> ops_in (opsChan s) = 0) \<and>
     (\<forall>x. dpc s = DSend x \<longrightarrow> released s < dcap s) \<and>
     0 \<le> released s \<and> released s \<le> max 0 (dcap s) \<and> 0 \<le> opsExecuted s \<and>
     (returned s \<longrightarrow> workers (cfg s) \<le> received s)"

text \<open>
  What holds of the dispatcher of a \<open>stress\<close> run over a log with the records \<open>ops\<close>: the
  records not yet read, the one in hand and the ones released make up the log, and the
  dispatcher leaves its loop only at the cap or at the end of the log.
\<close>

definition stress_inv :: "'op list \<Rightarrow> ('op, 'f) sys \<Rightarrow> bool" where
  "stress_inv ops s \<longleftrightarrow>
     (\<exists>r. reader s = FileByLine r \<and>
        int (length r) + released s + (if (\<exists>x. dpc s = DSend x) then 1 else 0)
          = int (length ops) \<and>
        ((\<exists>k. dpc s = DMarkers k) \<or> dpc s = DStopped \<longrightarrow> dcap s \<le> released s \<or> r = []))"

text \<open>
  The goroutine \<open>t\<close> is a worker whose next step executes an operation and counts it.
\<close>

definition executing :: "tid \<Rightarrow> ('op, 'f) sys \<Rightarrow> bool" where
  "executing t s =
     (case t of
        Worker i \<Rightarrow> \<not> returned s \<and> crashed s = None \<and> i < length (wks s) \<and> holding (wks s ! i)
      | _ \<Rightarrow> False)"

subsection \<open>A measure of the work left\<close>

text \<open>
  A number that every effective step of the dispatcher, of a worker and of \<open>main\<close>
  makes smaller; the steps of the reporting goroutine leave it as it is. \<open>running\<close> says
  that the process is alive: \<open>main\<close> has not returned and nothing has panicked.
\<close>

fun dweight :: "nat \<Rightarrow> nat \<Rightarrow> 'op dstate \<Rightarrow> nat" where
  "dweight W r DLoop = 2 * r + W + 3"
| "dweight W r (DSend x) = 2 * r + W + 2"
| "dweight W r (DMarkers k) = W - k + 1"
| "dweight W r DStopped = 0"

fun wweight :: "'op wstate \<Rightarrow> nat" where
  "wweight WStart = 2"
| "wweight WRecv = 1"
| "wweight (WExec x) = 2"
| "wweight WExit = 1"
| "wweight WDone = 0"

definition running :: "('op, 'f) sys \<Rightarrow> bool" where
  "running s = (\<not> returned s \<and> crashed s = None)"

definition work_left :: "('op, 'f) sys \<Rightarrow> nat" where
  "work_left s =
     (if running s then
        1 + 4 * dweight (nat (workers (cfg s))) (nat (dcap s - released s)) (dpc s)
          + 3 * length (opsChan s) + sum_list (map wweight (wks s))
      else 0)"

section \<open>Flags and set-up\<close>

lemma parseFlags_Inr:
  "parseFlags f = Inr g \<Longrightarrow>
     (style f = ''stress'' \<or> style f = ''real'') \<and> 0 < workers f \<and>
     g = f\<lparr>maxOps := (if maxOps f = 0 then 4294967295 else maxOps f)\<rparr>"
  by (auto simp: parseFlags_def split: if_splits)

lemma main_setup_stress:
  "parseFlags f = Inr g \<Longrightarrow> style g = ''stress'' \<Longrightarrow>
   main_setup env f =
     (case openLog env 0 (opsFilename g) of
        Inl e \<Rightarrow> ([], Inl e)
      | Inr r \<Rightarrow>
          ([FileByLineOpsReader (opsFilename g), BestEffortOpsDispatcher (maxOps g),
            LatencyChan (workers g), ExitChan] @ spawn g,
           Inr (start g (FileByLine r))))"
  by (simp add: main_setup_def NewFileByLineOpsReader_def)

lemma main_setup_real:
  "parseFlags f = Inr g \<Longrightarrow> style g \<noteq> ''stress'' \<Longrightarrow>
   main_setup env f =
     (case openLog env 0 (opsFilename g) of
        Inl e \<Rightarrow> ([], Inl e)
      | Inr r \<Rightarrow>
          ([FileByLineOpsReader (opsFilename g), CyclicOpsReader,
            ByTimeOpsDispatcher (maxOps g), LatencyChan (workers g), ExitChan] @ spawn g,
           Inr (start g (Cyclic r 1))))"
  by (simp add: main_setup_def NewFileByLineOpsReader_def NewCyclicOpsReader_def factory_def
           split: sum.splits)

lemma main_setup_cfg:
  assumes "main_setup env f = (cs, Inr s)"
  shows "parseFlags f = Inr (cfg s) \<and> dcap s = maxOps (cfg s) \<and> latencyCap s = workers (cfg s)"
proof -
  from assms obtain g where g: "parseFlags f = Inr g"
    by (cases "parseFlags f") (auto simp: main_setup_def)
  show ?thesis
  proof (cases "style g = ''stress''")
    case True
    from assms show ?thesis
      unfolding main_setup_stress [OF g True] using g
      by (auto simp: start_def split: sum.splits)
  next
    case False
    from assms show ?thesis
      unfolding main_setup_real [OF g False] using g
      by (auto simp: start_def split: sum.splits)
  qed
qed

lemma LatencyChan_notin_spawn: "LatencyChan n \<notin> set (spawn g)"
  by (auto simp: spawn_def)

lemma main_setup_created:
  assumes "main_setup env f = (cs, Inr s)"
  shows "\<exists>pre. cs = pre @ [LatencyChan (workers (cfg s)), ExitChan] @ spawn (cfg s) \<and>
           (pre = [FileByLineOpsReader (opsFilename (cfg s)),
                   BestEffortOpsDispatcher (maxOps (cfg s))] \<and>
              style (cfg s) = ''stress'' \<or>
            pre = [FileByLineOpsReader (opsFilename (cfg s)), CyclicOpsReader,
                   ByTimeOpsDispatcher (maxOps (cfg s))] \<and> style (cfg s) = ''real'')"
proof -
  from assms obtain g where g: "parseFlags f = Inr g"
    by (cases "parseFlags f") (auto simp: main_setup_def)
  show ?thesis
  proof (cases "style g = ''stress''")
    case True
    from assms show ?thesis
      unfolding main_setup_stress [OF g True] using True
      by (auto simp: start_def split: sum.splits)
  next
    case False
    with parseFlags_Inr [OF g] have "style g = ''real''"
      by (auto split: if_splits)
    with assms show ?thesis
      unfolding main_setup_real [OF g False]
      by (auto simp: start_def split: sum.splits)
  qed
qed




text \<open>
  Claim C6. Configuration errors are fatal before any work starts: when the style is
  neither \<open>stress\<close> nor \<open>real\<close>, or the worker count is not positive, \<open>parseFlags\<close> returns
  an error and \<open>main\<close> panics with it having constructed nothing, neither a reader nor a
  dispatcher nor a worker.
\<close>

theorem configuration_errors_fatal:
  "(style f \<noteq> ''stress'' \<and> style f \<noteq> ''real'') \<or> workers f \<le> 0 \<Longrightarrow>
   \<exists>e. parseFlags f = Inl e \<and> main_setup env f = ([], Inl e)"
  by (auto simp: parseFlags_def main_setup_def)

theorem configuration_errors_fatal_witness:
  "(\<exists>e. parseFlags (flags_ok\<lparr>style := ''fast''\<rparr>) = Inl e \<and>
        main_setup env_ok (flags_ok\<lparr>style := ''fast''\<rparr>) = ([], Inl e)) \<and>
   (\<exists>e. parseFlags (flags_ok\<lparr>workers := 0\<rparr>) = Inl e \<and>
        main_setup env_ok (flags_ok\<lparr>workers := 0\<rparr>) = ([], Inl e))"
  using configuration_errors_fatal [of "flags_ok\<lparr>style := ''fast''\<rparr>" env_ok]
        configuration_errors_fatal [of "flags_ok\<lparr>workers := 0\<rparr>" env_ok]
  by (simp add: flags_ok_def)

text \<open>
  Claim C8. Whenever \<open>main\<close> gets as far as its workers, the channel of sampled latencies
  has been created with a capacity equal to the worker count of the command line, which
  is positive, and no other latency channel has been created.
\<close>

theorem latency_channel_capacity:
  "main_setup env f = (cs, Inr s) \<Longrightarrow>
     0 < workers f \<and> latencyCap s = workers f \<and>
     (\<forall>n. LatencyChan n \<in> set cs \<longleftrightarrow> n = workers f)"
proof -
  assume a: "main_setup env f = (cs, Inr s)"
  from main_setup_cfg [OF a]
  have g: "parseFlags f = Inr (cfg s)" and l: "latencyCap s = workers (cfg s)"
    by simp_all
  from parseFlags_Inr [OF g] have w: "0 < workers f" "workers (cfg s) = workers f"
    by (simp_all split: if_splits)
  from main_setup_created [OF a] have "\<forall>n. LatencyChan n \<in> set cs \<longleftrightarrow> n = workers (cfg s)"
    by (auto simp: LatencyChan_notin_spawn)
  with w l show ?thesis by simp
qed

theorem latency_channel_capacity_witness:
  "\<exists>cs s. main_setup env_ok flags_ok = (cs, Inr s) \<and> latencyCap s = 2 \<and>
     (\<forall>n. LatencyChan n \<in> set cs \<longleftrightarrow> n = 2)"
proof -
  obtain cs s where m: "main_setup env_ok flags_ok = (cs, Inr s)"
    by (simp add: main_setup_def parseFlags_def flags_ok_def env_ok_def
          NewFileByLineOpsReader_def)
  from latency_channel_capacity [OF m] m show ?thesis by (simp add: flags_ok_def)
qed

text \<open>
  Claim C10. \<open>parseFlags\<close> checks the style and the worker count and nothing else: it
  returns an error exactly when one of the two is invalid. With a valid style and worker
  count it returns the flags it was given, but for \<open>maxOps\<close> when that is 0; so every
  \<open>sampleRate\<close> (its type is arbitrary here, so also one outside [0, 1]) passes unchanged
  whatever \<open>maxOps\<close> is, and every \<open>maxOps\<close> other than 0, the negative ones among them,
  passes unchanged whatever \<open>sampleRate\<close> is. The run is set up with these values: the
  flags in force are the ones returned, every worker's statistics collector samples at
  the given rate, and for \<open>maxOps\<close> other than 0 the dispatcher's cap is the given \<open>maxOps\<close>.
\<close>

theorem parseFlags_validates_only_style_and_workers:
  "(isl (parseFlags f) \<longleftrightarrow>
      (style f \<noteq> ''stress'' \<and> style f \<noteq> ''real'') \<or> workers f \<le> 0) \<and>
   ((style f = ''stress'' \<or> style f = ''real'') \<and> 0 < workers f \<longrightarrow>
      parseFlags f = Inr (f\<lparr>maxOps := if maxOps f = 0 then 4294967295 else maxOps f\<rparr>) \<and>
      (maxOps f \<noteq> 0 \<longrightarrow> parseFlags f = Inr f) \<and>
      (\<forall>cs s. main_setup env f = (cs, Inr s) \<longrightarrow>
         cfg s = f\<lparr>maxOps := if maxOps f = 0 then 4294967295 else maxOps f\<rparr> \<and>
         sampleRate (cfg s) = sampleRate f \<and>
         (\<forall>i<nat (workers f). StatsCollectorSampling i (sampleRate f) \<in> set cs) \<and>
         (maxOps f \<noteq> 0 \<longrightarrow> cfg s = f \<and> dcap s = maxOps f)))"
proof (intro conjI impI allI)
  show "isl (parseFlags f) \<longleftrightarrow>
      (style f \<noteq> ''stress'' \<and> style f \<noteq> ''real'') \<or> workers f \<le> 0"
    by (simp add: parseFlags_def)
next
  assume h: "(style f = ''stress'' \<or> style f = ''real'') \<and> 0 < workers f"
  then show p: "parseFlags f = Inr (f\<lparr>maxOps := if maxOps f = 0 then 4294967295 else maxOps f\<rparr>)"
    by (auto simp: parseFlags_def)
  show "parseFlags f = Inr f" if "maxOps f \<noteq> 0"
    using p that by simp
  fix cs s assume m: "main_setup env f = (cs, Inr s)"
  from main_setup_cfg [OF m] p
  show c: "cfg s = f\<lparr>maxOps := if maxOps f = 0 then 4294967295 else maxOps f\<rparr>"
    by simp
  then show "sampleRate (cfg s) = sampleRate f" by simp
  show "cfg s = f" if "maxOps f \<noteq> 0"
    using c that by simp
  show "dcap s = maxOps f" if "maxOps f \<noteq> 0"
    using main_setup_cfg [OF m] c that by simp
  fix i assume "i < nat (workers f)"
  then have "StatsCollectorSampling i (sampleRate f) \<in> set (spawn f)"
    by (auto simp: spawn_def)
  moreover from c have "spawn (cfg s) = spawn f" by (simp add: spawn_def)
  ultimately show "StatsCollectorSampling i (sampleRate f) \<in> set cs"
    using main_setup_created [OF m] by auto
qed

theorem parseFlags_validates_only_style_and_workers_witness:
  "parseFlags (flags_ok\<lparr>maxOps := - 5, sampleRate := 3 / 2\<rparr>)
     = Inr (flags_ok\<lparr>maxOps := - 5, sampleRate := 3 / 2\<rparr>) \<and>
   parseFlags (flags_ok\<lparr>sampleRate := 3 / 2\<rparr>) = Inr (flags_ok\<lparr>sampleRate := 3 / 2\<rparr>) \<and>
   parseFlags (flags_ok\<lparr>maxOps := 0, sampleRate := - 1\<rparr>)
     = Inr (flags_ok\<lparr>maxOps := 4294967295, sampleRate := - 1\<rparr>) \<and>
   (\<exists>cs s. main_setup env_ok (flags_ok\<lparr>maxOps := - 5, sampleRate := 3 / 2\<rparr>) = (cs, Inr s) \<and>
      sampleRate (cfg s) = 3 / 2 \<and> maxOps (cfg s) = - 5 \<and> dcap s = - 5 \<and>
      StatsCollectorSampling 0 (3 / 2) \<in> set cs \<and> StatsCollectorSampling 1 (3 / 2) \<in> set cs) \<and>
   (\<exists>cs s. main_setup env_ok (flags_ok\<lparr>sampleRate := 3 / 2\<rparr>) = (cs, Inr s) \<and>
      sampleRate (cfg s) = 3 / 2 \<and> maxOps (cfg s) = 2 \<and> dcap s = 2 \<and>
      StatsCollectorSampling 0 (3 / 2) \<in> set cs \<and> StatsCollectorSampling 1 (3 / 2) \<in> set cs) \<and>
   (\<exists>cs s. main_setup env_ok (flags_ok\<lparr>maxOps := 0, sampleRate := - 1\<rparr>) = (cs, Inr s) \<and>
      sampleRate (cfg s) = - 1 \<and>
      StatsCollectorSampling 0 (- 1) \<in> set cs \<and> StatsCollectorSampling 1 (- 1) \<in> set cs)"
proof -
  let ?a = "flags_ok\<lparr>maxOps := - 5, sampleRate := 3 / 2\<rparr>"
  let ?b = "flags_ok\<lparr>sampleRate := 3 / 2\<rparr>"
  let ?c = "flags_ok\<lparr>maxOps := 0, sampleRate := - 1\<rparr>"
  obtain csa sa where ma: "main_setup env_ok ?a = (csa, Inr sa)"
    by (simp add: main_setup_def parseFlags_def flags_ok_def env_ok_def
          NewFileByLineOpsReader_def)
  obtain csb sb where mb: "main_setup env_ok ?b = (csb, Inr sb)"
    by (simp add: main_setup_def parseFlags_def flags_ok_def env_ok_def
          NewFileByLineOpsReader_def)
  obtain csc sc where mc: "main_setup env_ok ?c = (csc, Inr sc)"
    by (simp add: main_setup_def parseFlags_def flags_ok_def env_ok_def
          NewFileByLineOpsReader_def)
  from parseFlags_validates_only_style_and_workers [of ?a env_ok] ma
  have a: "parseFlags ?a = Inr ?a \<and> sampleRate (cfg sa) = 3 / 2 \<and> maxOps (cfg sa) = - 5 \<and>
      dcap sa = - 5 \<and>
      StatsCollectorSampling 0 (3 / 2) \<in> set csa \<and> StatsCollectorSampling 1 (3 / 2) \<in> set csa"
    by (simp add: flags_ok_def)
  from parseFlags_validates_only_style_and_workers [of ?b env_ok] mb
  have b: "parseFlags ?b = Inr ?b \<and> sampleRate (cfg sb) = 3 / 2 \<and> maxOps (cfg sb) = 2 \<and>
      dcap sb = 2 \<and>
      StatsCollectorSampling 0 (3 / 2) \<in> set csb \<and> StatsCollectorSampling 1 (3 / 2) \<in> set csb"
    by (simp add: flags_ok_def)
  from parseFlags_validates_only_style_and_workers [of ?c env_ok] mc
  have c: "parseFlags ?c = Inr (flags_ok\<lparr>maxOps := 4294967295, sampleRate := - 1\<rparr>) \<and>
      sampleRate (cfg sc) = - 1 \<and>
      StatsCollectorSampling 0 (- 1) \<in> set csc \<and> StatsCollectorSampling 1 (- 1) \<in> set csc"
    by (simp add: flags_ok_def)
  from a b c ma mb mc show ?thesis by simp
qed

section \<open>Safety: what holds in every state of every run\<close>

lemma cnt_update:
  "i < length xs \<Longrightarrow>
     cnt P (xs[i := v]) + (if P (xs ! i) then 1 else 0) = cnt P xs + (if P v then 1 else 0)"
  unfolding cnt_def
proof (induction xs arbitrary: i)
  case Nil
  then show ?case by simp
next
  case (Cons a xs)
  then show ?case by (cases i) auto
qed

lemma cnt_simps [simp]:
  "cnt P [] = 0"
  "cnt P (x # xs) = (if P x then Suc (cnt P xs) else cnt P xs)"
  "cnt P (xs @ ys) = cnt P xs + cnt P ys"
  by (simp_all add: cnt_def)

lemma cnt_le_length: "cnt P xs \<le> length xs"
  by (simp add: cnt_def)

lemma cnt_replicate: "cnt P (replicate n x) = (if P x then n else 0)"
  by (induction n) auto

lemma markers_last_snoc_None: "markers_last q \<Longrightarrow> markers_last (q @ [None])"
  by (induction q rule: markers_last.induct) (auto simp: ops_in_def)

lemma markers_last_snoc_Some: "markers_in q = 0 \<Longrightarrow> markers_last (q @ [Some x])"
  by (induction q rule: markers_last.induct) (auto simp: markers_in_def)

lemma markers_last_ops_in_0: "ops_in q = 0 \<Longrightarrow> markers_last q"
  by (induction q rule: markers_last.induct) (auto simp: ops_in_def)

lemma invariant_start:
  "0 < workers f \<Longrightarrow> invariant (start f rd)"
  by (simp add: invariant_def start_def cnt_replicate past_def finished_def ops_in_def markers_in_def)

lemma map_update_same:
  "i < length xs \<Longrightarrow> f v = f (xs ! i) \<Longrightarrow> map f (xs[i := v]) = map f xs"
  by (simp add: map_update list_update_same_conv)

lemma map_update_Suc:
  "i < length xs \<Longrightarrow> f v = Suc (f (xs ! i)) \<Longrightarrow>
     map f (xs[i := v]) = (map f xs)[i := Suc (map f xs ! i)]"
  by (simp add: map_update)

lemma markers_last_tl_None: "markers_last (None # q) \<Longrightarrow> ops_in q = 0 \<and> markers_last q"
  by (simp add: markers_last_ops_in_0)

lemma invariant_worker_step:
  assumes inv: "invariant s"
  shows "invariant (worker_step env i s)"
proof (cases "i < length (wks s)")
  case False
  then show ?thesis using inv by (simp add: worker_step_def)
next
  case True
  note c = cnt_update [OF True, where P = past] cnt_update [OF True, where P = finished]
    cnt_update [OF True, where P = holding]
  show ?thesis
  proof (cases "wks s ! i")
    case WStart
    from c [of WRecv] WStart
    have "cnt past ((wks s)[i := WRecv]) = cnt past (wks s)"
      "cnt finished ((wks s)[i := WRecv]) = cnt finished (wks s)"
      "cnt holding ((wks s)[i := WRecv]) = cnt holding (wks s)"
      by (simp_all add: past_def finished_def)
    with inv True WStart show ?thesis
      by (cases "dial env i (url (cfg s))")
         (auto simp: worker_step_def invariant_def crash_def map_update_same past_def finished_def)
  next
    case WRecv
    show ?thesis
    proof (cases "opsChan s")
      case Nil
      with inv True WRecv show ?thesis by (simp add: worker_step_def)
    next
      case (Cons a q)
      show ?thesis
      proof (cases a)
        case None
        from c [of WExit] WRecv
        have n: "cnt past ((wks s)[i := WExit]) = Suc (cnt past (wks s))"
          "cnt finished ((wks s)[i := WExit]) = cnt finished (wks s)"
          "cnt holding ((wks s)[i := WExit]) = cnt holding (wks s)"
          by (simp_all add: past_def finished_def)
        from inv Cons None have q: "ops_in q = 0" "markers_last q"
          by (simp_all add: invariant_def markers_last_ops_in_0)
        from inv True WRecv Cons None n q show ?thesis
          by (auto simp: worker_step_def invariant_def map_update_same map_update_Suc
                past_def finished_def ops_in_def markers_in_def)
      next
        case (Some x)
        from c [of "WExec x"] WRecv
        have n: "cnt past ((wks s)[i := WExec x]) = cnt past (wks s)"
          "cnt finished ((wks s)[i := WExec x]) = cnt finished (wks s)"
          "cnt holding ((wks s)[i := WExec x]) = Suc (cnt holding (wks s))"
          by (simp_all add: past_def finished_def)
        from inv True WRecv Cons Some n show ?thesis
          by (auto simp: worker_step_def invariant_def map_update_same
                past_def finished_def ops_in_def markers_in_def)
      qed
    qed
  next
    case (WExec x)
    from c [of WRecv] WExec
    have n: "cnt past ((wks s)[i := WRecv]) = cnt past (wks s)"
      "cnt finished ((wks s)[i := WRecv]) = cnt finished (wks s)"
      "Suc (cnt holding ((wks s)[i := WRecv])) = cnt holding (wks s)"
      by (simp_all add: past_def finished_def)
    from inv True WExec n show ?thesis
      by (auto simp: worker_step_def invariant_def map_update_same past_def finished_def)
  next
    case WExit
    from c [of WDone] WExit
    have n: "cnt past ((wks s)[i := WDone]) = cnt past (wks s)"
      "cnt finished ((wks s)[i := WDone]) = Suc (cnt finished (wks s))"
      "cnt holding ((wks s)[i := WDone]) = cnt holding (wks s)"
      by (simp_all add: past_def finished_def)
    from inv True WExit n show ?thesis
      by (auto simp: worker_step_def invariant_def map_update_same map_update_Suc
            past_def finished_def)
  next
    case WDone
    with inv True show ?thesis by (simp add: worker_step_def)
  qed
qed

lemma invariant_dispatcher_step:
  assumes inv: "invariant s"
  shows "invariant (dispatcher_step env s)"
proof (cases "dpc s")
  case DLoop
  show ?thesis
  proof (cases "released s < dcap s")
    case True
    show ?thesis
    proof (cases "reader_Next (factory env (opsFilename (cfg s))) (reader s)")
      case (Inl e)
      with inv DLoop True show ?thesis
        by (auto simp: dispatcher_step_def invariant_def crash_def)
    next
      case (Inr p)
      obtain y rd where p: "p = (y, rd)" by (cases p)
      with inv DLoop True Inr show ?thesis
        by (cases y) (auto simp: dispatcher_step_def invariant_def)
    qed
  next
    case False
    with inv DLoop show ?thesis
      by (auto simp: dispatcher_step_def invariant_def)
  qed
next
  case (DSend x)
  show ?thesis
  proof (cases "length (opsChan s) < qcap env")
    case True
    from inv DSend have z: "markers_in (opsChan s) = 0" "cnt past (wks s) = 0"
      by (simp_all add: invariant_def)
    then have "markers_last (opsChan s @ [Some x])"
      by (simp add: markers_last_snoc_Some)
    with inv DSend True z show ?thesis
      by (auto simp: dispatcher_step_def invariant_def ops_in_def markers_in_def)
  next
    case False
    with inv DSend show ?thesis by (simp add: dispatcher_step_def)
  qed
next
  case (DMarkers k)
  show ?thesis
  proof (cases "k < nat (workers (cfg s))")
    case True
    show ?thesis
    proof (cases "length (opsChan s) < qcap env")
      case c: True
      from inv have "markers_last (opsChan s @ [None])"
        by (simp add: invariant_def markers_last_snoc_None)
      with inv DMarkers True c show ?thesis
        by (auto simp: dispatcher_step_def invariant_def ops_in_def markers_in_def)
    next
      case False
      with inv DMarkers True show ?thesis by (simp add: dispatcher_step_def)
    qed
  next
    case False
    with inv DMarkers show ?thesis
      by (auto simp: dispatcher_step_def invariant_def)
  qed
next
  case DStopped
  with inv show ?thesis by (simp add: dispatcher_step_def)
qed

lemma invariant_reporter_step: "invariant s \<Longrightarrow> invariant (reporter_step s)"
  by (cases "rpc s") (auto simp: reporter_step_def invariant_def)

lemma invariant_main_step: "invariant s \<Longrightarrow> invariant (main_step s)"
  by (auto simp: main_step_def invariant_def)

lemma invariant_step: "invariant s \<Longrightarrow> invariant (step env t s)"
  by (cases t)
     (simp_all add: step_def invariant_dispatcher_step invariant_worker_step
        invariant_reporter_step invariant_main_step)

lemma invariant_run: "invariant s \<Longrightarrow> invariant (run env s sched)"
  by (induction sched arbitrary: s) (simp_all add: invariant_step)

lemma main_setup_start:
  assumes "main_setup env f = (cs, Inr s)"
  shows "\<exists>g r. parseFlags f = Inr g \<and> openLog env 0 (opsFilename g) = Inr r \<and>
           s = start g (if style g = ''stress'' then FileByLine r else Cyclic r 1)"
proof -
  from assms obtain g where g: "parseFlags f = Inr g"
    by (cases "parseFlags f") (auto simp: main_setup_def)
  show ?thesis
  proof (cases "style g = ''stress''")
    case True
    from assms show ?thesis
      unfolding main_setup_stress [OF g True] using g True
      by (auto split: sum.splits)
  next
    case False
    from assms show ?thesis
      unfolding main_setup_real [OF g False] using g False
      by (auto split: sum.splits)
  qed
qed

lemma invariant_main_setup:
  assumes "main_setup env f = (cs, Inr s)"
  shows "invariant s"
proof -
  from main_setup_start [OF assms] obtain g rd where g: "parseFlags f = Inr g" and s: "s = start g rd"
    by blast
  from parseFlags_Inr [OF g] have "0 < workers g"
    by (auto split: if_splits)
  from invariant_start [OF this] s show ?thesis by simp
qed

lemma cnt_full: "cnt P xs = length xs \<Longrightarrow> \<forall>x\<in>set xs. P x"
  unfolding cnt_def by (metis length_filter_less less_irrefl_nat)

lemma cnt_all: "\<forall>x\<in>set xs. P x \<Longrightarrow> cnt P xs = length xs"
  by (simp add: cnt_def)

lemma cnt_none: "\<forall>x\<in>set xs. \<not> P x \<Longrightarrow> cnt P xs = 0"
  by (simp add: cnt_def)

lemma ops_markers_length: "ops_in q + markers_in q = length q"
  unfolding ops_in_def markers_in_def cnt_def
  by (induction q) auto

lemma all_WDone: "\<forall>w\<in>set ws. w = WDone \<Longrightarrow> ws = replicate (length ws) WDone"
  by (induction ws) auto

lemma invariant_returned:
  assumes inv: "invariant s" and r: "returned s"
  shows "wks s = replicate (nat (workers (cfg s))) WDone \<and>
         markersSeen s = replicate (nat (workers (cfg s))) 1 \<and>
         exitSent s = replicate (nat (workers (cfg s))) 1 \<and>
         received s = workers (cfg s) \<and>
         opsChan s = [] \<and>
         opsExecuted s = released s"
proof -
  let ?W = "nat (workers (cfg s))"
  from inv have len: "length (wks s) = ?W" and pos: "0 < workers (cfg s)"
    by (simp_all add: invariant_def)
  from inv r have "workers (cfg s) \<le> int (cnt finished (wks s))"
    by (simp add: invariant_def)
  with cnt_le_length [of finished "wks s"] len have f: "cnt finished (wks s) = length (wks s)"
    by linarith
  from cnt_full [OF f] have d: "\<forall>w\<in>set (wks s). w = WDone"
    by (simp add: finished_def)
  from all_WDone [OF d] len have w: "wks s = replicate ?W WDone" by simp
  from d have "\<forall>w\<in>set (wks s). past w" and "\<forall>w\<in>set (wks s). \<not> holding w"
    by (auto simp: past_def)
  then have p: "cnt past (wks s) = ?W" and h: "cnt holding (wks s) = 0"
    using len by (simp_all add: cnt_all cnt_none)
  from inv p pos have o: "ops_in (opsChan s) = 0"
    by (simp add: invariant_def)
  from inv p have "markers_in (opsChan s) = 0"
    by (simp add: invariant_def)
  with o ops_markers_length [of "opsChan s"] have q: "opsChan s = []" by simp
  from inv have ms: "markersSeen s = map (\<lambda>w. if past w then 1 else 0) (wks s)"
    and es: "exitSent s = map (\<lambda>w. if finished w then 1 else 0) (wks s)"
    by (simp_all add: invariant_def)
  have m1: "markersSeen s = replicate ?W 1"
    by (subst ms, subst w) (simp add: past_def)
  have m2: "exitSent s = replicate ?W 1"
    by (subst es, subst w) (simp add: finished_def)
  from inv f len pos have rc: "received s = workers (cfg s)"
    by (simp add: invariant_def)
  from inv h o have "opsExecuted s = released s"
    by (simp add: invariant_def)
  with w m1 m2 rc q show ?thesis by simp
qed

lemma worker_step_frame:
  "reader (worker_step env i s) = reader s"
  "released (worker_step env i s) = released s"
  "dpc (worker_step env i s) = dpc s"
  "dcap (worker_step env i s) = dcap s"
  "cfg (worker_step env i s) = cfg s"
  "returned (worker_step env i s) = returned s"
  by (simp_all add: worker_step_def crash_def split: wstate.splits option.splits list.splits)

lemma reporter_step_frame:
  "reader (reporter_step s) = reader s"
  "released (reporter_step s) = released s"
  "dpc (reporter_step s) = dpc s"
  "dcap (reporter_step s) = dcap s"
  "cfg (reporter_step s) = cfg s"
  "returned (reporter_step s) = returned s"
  "crashed (reporter_step s) = crashed s"
  "opsExecuted (reporter_step s) = opsExecuted s"
  "opsChan (reporter_step s) = opsChan s"
  "wks (reporter_step s) = wks s"
  by (simp_all add: reporter_step_def split: rstate.splits)

lemma main_step_frame:
  "reader (main_step s) = reader s"
  "released (main_step s) = released s"
  "dpc (main_step s) = dpc s"
  "dcap (main_step s) = dcap s"
  "cfg (main_step s) = cfg s"
  "opsExecuted (main_step s) = opsExecuted s"
  by (simp_all add: main_step_def)

lemma dispatcher_step_frame:
  "dcap (dispatcher_step env s) = dcap s"
  "cfg (dispatcher_step env s) = cfg s"
  "returned (dispatcher_step env s) = returned s"
  "opsExecuted (dispatcher_step env s) = opsExecuted s"
  "wks (dispatcher_step env s) = wks s"
  by (simp_all add: dispatcher_step_def crash_def split: dstate.splits sum.splits option.splits prod.splits)

lemma step_cfg: "cfg (step env t s) = cfg s" "dcap (step env t s) = dcap s"
  by (cases t; simp add: step_def worker_step_frame reporter_step_frame main_step_frame
        dispatcher_step_frame)+

lemma run_cfg: "cfg (run env s sched) = cfg s \<and> dcap (run env s sched) = dcap s"
  by (induction sched arbitrary: s) (simp_all add: step_cfg)

lemma stress_inv_dispatcher_step:
  assumes "stress_inv ops s"
  shows "stress_inv ops (dispatcher_step env s)"
proof -
  from assms obtain r where r: "reader s = FileByLine r" by (auto simp: stress_inv_def)
  show ?thesis
  proof (cases "dpc s")
    case DLoop
    with assms r show ?thesis
      by (cases r) (auto simp: stress_inv_def dispatcher_step_def)
  next
    case (DSend x)
    with assms r show ?thesis
      by (auto simp: stress_inv_def dispatcher_step_def)
  next
    case (DMarkers k)
    with assms r show ?thesis
      by (auto simp: stress_inv_def dispatcher_step_def)
  next
    case DStopped
    with assms r show ?thesis
      by (auto simp: stress_inv_def dispatcher_step_def)
  qed
qed

lemma stress_inv_step: "stress_inv ops s \<Longrightarrow> stress_inv ops (step env t s)"
  by (cases t)
     (simp_all add: step_def stress_inv_dispatcher_step,
      simp_all add: stress_inv_def worker_step_frame reporter_step_frame main_step_frame)

lemma stress_inv_run: "stress_inv ops s \<Longrightarrow> stress_inv ops (run env s sched)"
  by (induction sched arbitrary: s) (simp_all add: stress_inv_step)

lemma stress_inv_start: "stress_inv ops (start g (FileByLine ops))"
  by (simp add: stress_inv_def start_def)

lemma stress_final_count:
  assumes inv: "invariant s" and st: "stress_inv ops s" and r: "returned s"
  shows "released s = min (max 0 (dcap s)) (int (length ops))"
proof -
  from invariant_returned [OF inv r] have w: "wks s = replicate (nat (workers (cfg s))) WDone"
    by simp
  from inv have pos: "0 < workers (cfg s)" by (simp add: invariant_def)
  from w pos have "0 < cnt past (wks s)"
    by (simp add: cnt_replicate past_def)
  with inv have "0 < markers_sent (nat (workers (cfg s))) (dpc s)"
    by (simp add: invariant_def)
  then have ph: "(\<exists>k. dpc s = DMarkers k) \<or> dpc s = DStopped"
    by (cases "dpc s") simp_all
  from inv have b: "0 \<le> released s" "released s \<le> max 0 (dcap s)"
    by (simp_all add: invariant_def)
  from st ph have "\<exists>n::nat. int n + released s = int (length ops) \<and>
      (dcap s \<le> released s \<or> n = 0)"
    by (auto simp: stress_inv_def)
  with b show ?thesis by auto
qed

lemma opsExecuted_step:
  "opsExecuted (step env t s) = opsExecuted s + (if executing t s then 1 else 0)"
proof (cases t)
  case Dispatcher
  then show ?thesis by (simp add: step_def executing_def dispatcher_step_frame)
next
  case (Worker i)
  show ?thesis
  proof (cases "\<not> returned s \<and> crashed s = None \<and> i < length (wks s)")
    case True
    with Worker show ?thesis
      by (cases "wks s ! i")
         (simp_all add: step_def executing_def worker_step_def crash_def
            split: option.splits list.splits)
  next
    case False
    with Worker show ?thesis
      by (auto simp: step_def executing_def worker_step_def)
  qed
next
  case Reporter
  then show ?thesis by (simp add: step_def executing_def reporter_step_frame)
next
  case Main
  then show ?thesis by (simp add: step_def executing_def main_step_frame)
qed

lemma main_setup_ok:
  "main_setup env_ok flags_ok =
     ([FileByLineOpsReader ''ops.json'', BestEffortOpsDispatcher 2, LatencyChan 2, ExitChan]
        @ spawn flags_ok,
      Inr (start flags_ok (FileByLine [10, 20, 30])))"
  by (simp add: main_setup_def parseFlags_def flags_ok_def env_ok_def NewFileByLineOpsReader_def)

text \<open>The dispatcher never releases more operations than its cap.\<close>

lemma released_le_cap:
  assumes "main_setup env f = (cs, Inr s0)"
  shows "released (run env s0 sched) \<le> max 0 (dcap s0)"
proof -
  from invariant_main_setup [OF assms] have "invariant (run env s0 sched)"
    by (rule invariant_run)
  then show ?thesis by (simp add: invariant_def run_cfg)
qed

section \<open>Progress: the run comes to an end\<close>

lemma sum_list_map_update:
  "i < length xs \<Longrightarrow>
     sum_list (map f (xs[i := v])) + f (xs ! i) = sum_list (map f xs) + (f v :: nat)"
proof (induction xs arbitrary: i)
  case Nil
  then show ?case by simp
next
  case (Cons a xs)
  then show ?case by (cases i) auto
qed

lemma step_not_running: "\<not> running s \<Longrightarrow> step env t s = s"
  by (auto simp: step_def running_def)

lemma work_left_worker_step:
  assumes run: "running s" and ch: "worker_step env i s \<noteq> s"
  shows "work_left (worker_step env i s) < work_left s"
proof -
  have i: "i < length (wks s)"
  proof (rule ccontr)
    assume "\<not> i < length (wks s)"
    then have "worker_step env i s = s" by (simp add: worker_step_def)
    with ch show False by simp
  qed
  note u = sum_list_map_update [OF i, where f = wweight]
  show ?thesis
  proof (cases "wks s ! i")
    case WStart
    with run i u [of WRecv] show ?thesis
      by (cases "dial env i (url (cfg s))")
         (auto simp: worker_step_def work_left_def running_def crash_def)
  next
    case WRecv
    show ?thesis
    proof (cases "opsChan s")
      case Nil
      with WRecv i ch show ?thesis by (simp add: worker_step_def)
    next
      case (Cons a q)
      show ?thesis
      proof (cases a)
        case None
        with run i u [of WExit] WRecv Cons show ?thesis
          by (auto simp: worker_step_def work_left_def running_def)
      next
        case (Some x)
        with run i u [of "WExec x"] WRecv Cons show ?thesis
          by (auto simp: worker_step_def work_left_def running_def)
      qed
    qed
  next
    case (WExec x)
    with run i u [of WRecv] show ?thesis
      by (auto simp: worker_step_def work_left_def running_def)
  next
    case WExit
    with run i u [of WDone] ch show ?thesis
      by (auto simp: worker_step_def work_left_def running_def split: if_splits)
  next
    case WDone
    with i ch show ?thesis by (simp add: worker_step_def)
  qed
qed

lemma work_left_dispatcher_step:
  assumes inv: "invariant s" and run: "running s" and ch: "dispatcher_step env s \<noteq> s"
  shows "work_left (dispatcher_step env s) < work_left s"
proof (cases "dpc s")
  case DLoop
  show ?thesis
  proof (cases "released s < dcap s")
    case True
    show ?thesis
    proof (cases "reader_Next (factory env (opsFilename (cfg s))) (reader s)")
      case (Inl e)
      with run DLoop True show ?thesis
        by (auto simp: dispatcher_step_def work_left_def running_def crash_def)
    next
      case (Inr p)
      obtain y rd where p: "p = (y, rd)" by (cases p)
      with run DLoop True Inr show ?thesis
        by (cases y) (auto simp: dispatcher_step_def work_left_def running_def)
    qed
  next
    case False
    with run DLoop show ?thesis
      by (auto simp: dispatcher_step_def work_left_def running_def)
  qed
next
  case (DSend x)
  from inv DSend have "released s < dcap s" by (simp add: invariant_def)
  then have "nat (dcap s - (released s + 1)) < nat (dcap s - released s)" by simp
  with run DSend ch show ?thesis
    by (auto simp: dispatcher_step_def work_left_def running_def split: if_splits)
next
  case (DMarkers k)
  with run ch show ?thesis
    by (auto simp: dispatcher_step_def work_left_def running_def split: if_splits)
next
  case DStopped
  with ch show ?thesis by (simp add: dispatcher_step_def)
qed

lemma work_left_step:
  assumes inv: "invariant s" and t: "t \<noteq> Reporter" and ch: "step env t s \<noteq> s"
  shows "work_left (step env t s) < work_left s"
proof -
  from ch have run: "running s" using step_not_running by blast
  then have st: "step env t s =
      (case t of Dispatcher \<Rightarrow> dispatcher_step env s | Worker i \<Rightarrow> worker_step env i s
       | Reporter \<Rightarrow> reporter_step s | Main \<Rightarrow> main_step s)"
    by (simp add: step_def running_def)
  show ?thesis
  proof (cases t)
    case Dispatcher
    with st ch work_left_dispatcher_step [OF inv run] show ?thesis by simp
  next
    case (Worker i)
    with st ch work_left_worker_step [OF run] show ?thesis by simp
  next
    case Reporter
    with t show ?thesis by simp
  next
    case Main
    with st ch run show ?thesis
      by (auto simp: main_step_def work_left_def running_def split: if_splits)
  qed
qed

lemma work_left_reporter: "work_left (step env Reporter s) = work_left s"
  by (cases "rpc s") (auto simp: step_def reporter_step_def work_left_def running_def)

lemma cnt_less: "i < length xs \<Longrightarrow> \<not> P (xs ! i) \<Longrightarrow> cnt P xs < length xs"
  unfolding cnt_def by (metis length_filter_less nth_mem)

lemma step_running:
  "running s \<Longrightarrow> step env t s =
      (case t of Dispatcher \<Rightarrow> dispatcher_step env s | Worker i \<Rightarrow> worker_step env i s
       | Reporter \<Rightarrow> reporter_step s | Main \<Rightarrow> main_step s)"
  by (simp add: step_def running_def)

lemma worker_enabled:
  assumes inv: "invariant s" and run: "running s" and i: "i < length (wks s)"
    and w: "wks s ! i \<noteq> WDone" "wks s ! i = WRecv \<longrightarrow> opsChan s \<noteq> []"
  shows "step env (Worker i) s \<noteq> s"
proof (cases "wks s ! i")
  case WStart
  show ?thesis
  proof (cases "dial env i (url (cfg s))")
    case None
    with WStart i have "wks (step env (Worker i) s) ! i = WRecv"
      by (simp add: step_running [OF run] worker_step_def)
    with WStart show ?thesis by auto
  next
    case (Some e)
    with WStart i have "crashed (step env (Worker i) s) = Some e"
      by (simp add: step_running [OF run] worker_step_def crash_def)
    with run show ?thesis by (auto simp: running_def)
  qed
next
  case WRecv
  with w obtain a q where q: "opsChan s = a # q" by (cases "opsChan s") auto
  with WRecv i have "wks (step env (Worker i) s) ! i \<noteq> WRecv"
    by (cases a) (simp_all add: step_running [OF run] worker_step_def)
  with WRecv show ?thesis by auto
next
  case (WExec x)
  with i have "wks (step env (Worker i) s) ! i = WRecv"
    by (simp add: step_running [OF run] worker_step_def)
  with WExec show ?thesis by auto
next
  case WExit
  then have "\<not> finished (wks s ! i)" by (simp add: finished_def)
  from cnt_less [of i "wks s" finished, OF i this] inv have "received s < workers (cfg s)"
    by (simp add: invariant_def)
  with WExit i have "wks (step env (Worker i) s) ! i = WDone"
    by (simp add: step_running [OF run] worker_step_def)
  with WExit show ?thesis by auto
next
  case WDone
  with w show ?thesis by simp
qed

lemma dispatcher_enabled:
  assumes inv: "invariant s" and run: "running s" and q: "0 < qcap env"
    and e: "opsChan s = []" and i: "i < length (wks s)" and w: "wks s ! i = WRecv"
  shows "step env Dispatcher s \<noteq> s"
proof (cases "dpc s")
  case DLoop
  have "dpc (dispatcher_step env s) \<noteq> DLoop \<or> crashed (dispatcher_step env s) \<noteq> None"
    using DLoop
    by (auto simp: dispatcher_step_def crash_def split: sum.splits option.splits prod.splits)
  with DLoop run show ?thesis
    by (auto simp: step_running [OF run] running_def)
next
  case (DSend x)
  with q e have "dpc (dispatcher_step env s) = DLoop"
    by (simp add: dispatcher_step_def)
  with DSend show ?thesis by (auto simp: step_running [OF run])
next
  case (DMarkers k)
  with q e have "dpc (dispatcher_step env s) \<noteq> DMarkers k"
    by (simp add: dispatcher_step_def)
  with DMarkers show ?thesis by (auto simp: step_running [OF run])
next
  case DStopped
  from w have "\<not> past (wks s ! i)" by (simp add: past_def)
  from cnt_less [of i "wks s" past, OF i this] inv DStopped e have False
    by (simp add: invariant_def markers_in_def)
  then show ?thesis ..
qed

lemma main_enabled:
  assumes inv: "invariant s" and run: "running s" and d: "\<forall>w\<in>set (wks s). w = WDone"
  shows "step env Main s \<noteq> s"
proof -
  from d have "cnt finished (wks s) = length (wks s)"
    by (simp add: cnt_all finished_def)
  with inv have "\<not> received s < workers (cfg s)"
    by (simp add: invariant_def)
  then have "returned (step env Main s)"
    by (simp add: step_running [OF run] main_step_def)
  with run show ?thesis by (auto simp: running_def)
qed

lemma progress:
  assumes inv: "invariant s" and run: "running s" and q: "0 < qcap env"
  shows "\<exists>t. t \<noteq> Reporter \<and> step env t s \<noteq> s"
proof (cases "\<forall>w\<in>set (wks s). w = WDone")
  case True
  from main_enabled [OF inv run True] show ?thesis by blast
next
  case False
  then obtain i where i: "i < length (wks s)" and w: "wks s ! i \<noteq> WDone"
    by (auto simp: in_set_conv_nth)
  show ?thesis
  proof (cases "wks s ! i = WRecv \<and> opsChan s = []")
    case True
    with dispatcher_enabled [OF inv run q _ i] show ?thesis by blast
  next
    case False
    with worker_enabled [OF inv run i w] show ?thesis by blast
  qed
qed

lemma termination_reachable:
  "invariant s \<Longrightarrow> 0 < qcap env \<Longrightarrow> \<exists>sched. \<not> running (run env s sched)"
proof (induction "work_left s" arbitrary: s rule: less_induct)
  case less
  show ?case
  proof (cases "running s")
    case False
    then have "\<not> running (run env s [])" by simp
    then show ?thesis by blast
  next
    case True
    from progress [OF less.prems(1) True less.prems(2)]
    obtain t where t: "t \<noteq> Reporter" "step env t s \<noteq> s" by blast
    from work_left_step [OF less.prems(1) t]
    have "work_left (step env t s) < work_left s" .
    from less.hyps [OF this invariant_step [OF less.prems(1)] less.prems(2)]
    obtain sched where "\<not> running (run env (step env t s) sched)" by blast
    then have "\<not> running (run env s (t # sched))" by simp
    then show ?thesis by blast
  qed
qed

lemma run_append: "run env s (xs @ ys) = run env (run env s xs) ys"
  by (induction xs arbitrary: s) simp_all

lemma invariant_counters:
  assumes inv: "invariant s" and i: "i < length (wks s)"
  shows "markersSeen s ! i = (if past (wks s ! i) then 1 else 0) \<and>
         exitSent s ! i = (if wks s ! i = WDone then 1 else 0)"
proof -
  from inv have "markersSeen s = map (\<lambda>w. if past w then 1 else 0) (wks s)"
    and "exitSent s = map (\<lambda>w. if finished w then 1 else 0) (wks s)"
    by (simp_all add: invariant_def)
  with i show ?thesis by (simp add: finished_def)
qed

lemma no_crash_step:
  assumes d: "\<forall>i u. dial env i u = None" and o: "\<forall>n name. \<not> isl (openLog env n name)"
    and c: "crashed s = None"
  shows "crashed (step env t s) = None"
proof (cases "running s")
  case False
  with c show ?thesis by (simp add: step_not_running)
next
  case True
  have f: "\<not> isl (reader_Next (factory env name) rd)" for name and rd :: "'a reader"
  proof (cases "(factory env name, rd)" rule: reader_Next.cases)
    case (4 mk n)
    with o [rule_format, of n name] show ?thesis
      by (cases "openLog env n name")
         (auto simp: factory_def NewFileByLineOpsReader_def split: list.splits)
  qed auto
  show ?thesis
  proof (cases t)
    case Dispatcher
    with c f [of "opsFilename (cfg s)" "reader s"] show ?thesis
      by (auto simp: step_running [OF True] dispatcher_step_def crash_def
            split: dstate.splits sum.splits option.splits prod.splits)
  next
    case (Worker i)
    with c d show ?thesis
      by (auto simp: step_running [OF True] worker_step_def crash_def
            split: wstate.splits list.splits option.splits)
  next
    case Reporter
    with c show ?thesis by (simp add: step_running [OF True] reporter_step_frame)
  next
    case Main
    with c show ?thesis by (simp add: step_running [OF True] main_step_def)
  qed
qed

lemma no_crash_run:
  "\<forall>i u. dial env i u = None \<Longrightarrow> \<forall>n name. \<not> isl (openLog env n name) \<Longrightarrow>
     crashed s = None \<Longrightarrow> crashed (run env s sched) = None"
  by (induction sched arbitrary: s) (simp_all add: no_crash_step)

lemma worker_leaves_loop:
  "running s \<Longrightarrow> i < length (wks s) \<Longrightarrow> wks s ! i = WRecv \<Longrightarrow> opsChan s = None # q \<Longrightarrow>
     wks (step env (Worker i) s) ! i = WExit \<and> opsChan (step env (Worker i) s) = q"
  by (simp add: step_running worker_step_def)

lemma main_setup_workers:
  assumes "main_setup env f = (cs, Inr s0)"
  shows "workers (cfg s0) = workers f \<and> 0 < workers f \<and> crashed s0 = None"
proof -
  from main_setup_start [OF assms] obtain g rd where g: "parseFlags f = Inr g"
    and s: "s0 = start g rd" by blast
  from parseFlags_Inr [OF g] s show ?thesis by (auto simp: start_def)
qed

lemma factory_eq: "factory env name n = openLog env n name"
  by (cases "openLog env n name") (simp_all add: factory_def NewFileByLineOpsReader_def)

lemma pull_file:
  "pull mk (Suc (length r)) (FileByLine r) = Inr (map Some r @ [None], FileByLine [])"
  by (induction r) simp_all

lemma pull_cyclic:
  assumes "\<forall>n. \<exists>x xs. mk n = Inr (x # xs)"
  shows "\<exists>ys r' n'. pull mk k (Cyclic r n) = Inr (map Some ys, Cyclic r' n') \<and> length ys = k"
proof (induction k arbitrary: r n)
  case 0
  then show ?case by simp
next
  case (Suc k)
  obtain x r1 n1 where nx: "reader_Next mk (Cyclic r n) = Inr (Some x, Cyclic r1 n1)"
  proof (cases r)
    case Nil
    from assms obtain x xs where "mk n = Inr (x # xs)" by blast
    with Nil that show ?thesis by simp
  next
    case (Cons x xs)
    with that show ?thesis by simp
  qed
  from Suc.IH [of r1 n1] obtain ys r' n'
    where "pull mk k (Cyclic r1 n1) = Inr (map Some ys, Cyclic r' n')" and "length ys = k"
    by blast
  with nx have "pull mk (Suc k) (Cyclic r n) = Inr (map Some (x # ys), Cyclic r' n') \<and>
      length (x # ys) = Suc k"
    by simp
  then show ?case by blast
qed

lemma crashed_run: "crashed s \<noteq> None \<Longrightarrow> run env s sched = s"
  by (induction sched) (simp_all add: step_def)

lemma main_setup_reopen:
  "main_setup env_reopen flags_real =
     ([FileByLineOpsReader ''ops.json'', CyclicOpsReader, ByTimeOpsDispatcher 2, LatencyChan 2,
       ExitChan] @ spawn flags_real,
      Inr (start flags_real (Cyclic [10] 1)))"
  by (simp add: main_setup_def parseFlags_def flags_real_def flags_ok_def env_reopen_def
        env_ok_def NewFileByLineOpsReader_def NewCyclicOpsReader_def factory_def)

lemma main_setup_real_ok:
  "main_setup env_ok flags_real =
     ([FileByLineOpsReader ''ops.json'', CyclicOpsReader, ByTimeOpsDispatcher 2, LatencyChan 2,
       ExitChan] @ spawn flags_real,
      Inr (start flags_real (Cyclic [10, 20, 30] 1)))"
  by (simp add: main_setup_def parseFlags_def flags_real_def flags_ok_def
        env_ok_def NewFileByLineOpsReader_def NewCyclicOpsReader_def factory_def)

section \<open>The run as a whole\<close>

text \<open>
  Claim C3. In every state of every run, a step changes the counter \<open>opsExecuted\<close> only
  when it is the step of a worker that executes an operation, and then by exactly one.
  When \<open>main\<close> returns, the counter equals the number of operations that the dispatcher
  has released; for a \<open>stress\<close> run over a log of \<open>n\<close> records that number is the smaller
  of \<open>n\<close> and the cap (\<open>maxOps\<close>, or 4294967295 for \<open>maxOps = 0\<close>; nothing for a negative
  cap). So with 50 workers, \<open>maxOps = 100000\<close> and a log of at least 100000 records the
  final counter is 100000.
\<close>

theorem counter_equals_operations_released:
  "main_setup env f = (cs, Inr s0) \<Longrightarrow> s = run env s0 sched \<Longrightarrow>
     (\<forall>t. opsExecuted (step env t s) = opsExecuted s + (if executing t s then 1 else 0)) \<and>
     (returned s \<longrightarrow>
        opsExecuted s = released s \<and>
        (\<forall>ops. style f = ''stress'' \<and> openLog env 0 (opsFilename f) = Inr ops \<longrightarrow>
           opsExecuted s =
             min (if maxOps f = 0 then 4294967295 else max 0 (maxOps f)) (int (length ops))))"
proof (intro conjI allI impI)
  fix t show "opsExecuted (step env t s) = opsExecuted s + (if executing t s then 1 else 0)"
    by (rule opsExecuted_step)
next
  assume m: "main_setup env f = (cs, Inr s0)" and s: "s = run env s0 sched" and r: "returned s"
  from invariant_main_setup [OF m] s have inv: "invariant s"
    by (simp add: invariant_run)
  from invariant_returned [OF inv r] show e: "opsExecuted s = released s" by simp
  fix ops assume a: "style f = ''stress'' \<and> openLog env 0 (opsFilename f) = Inr ops"
  from main_setup_start [OF m] obtain g r0 where g: "parseFlags f = Inr g"
    and o: "openLog env 0 (opsFilename g) = Inr r0"
    and s0: "s0 = start g (if style g = ''stress'' then FileByLine r0 else Cyclic r0 1)"
    by blast
  from parseFlags_Inr [OF g] have g': "g = f\<lparr>maxOps := if maxOps f = 0 then 4294967295 else maxOps f\<rparr>"
    by simp
  with a o s0 have s0': "s0 = start g (FileByLine ops)" by simp
  have si: "stress_inv ops s"
    unfolding s s0' by (intro stress_inv_run stress_inv_start)
  have d: "dcap s = maxOps g"
    unfolding s s0' by (simp add: run_cfg) (simp add: start_def)
  from stress_final_count [OF inv si r] e d g'
  show "opsExecuted s = min (if maxOps f = 0 then 4294967295 else max 0 (maxOps f)) (int (length ops))"
    by auto
qed

theorem counter_equals_operations_released_witness:
  "\<exists>cs s0. main_setup env_ok flags_ok = (cs, Inr s0) \<and>
      returned (run env_ok s0 sched_ok) \<and>
      opsExecuted (run env_ok s0 sched_ok) = 2 \<and>
      released (run env_ok s0 sched_ok) = 2"
proof -
  let ?s0 = "start flags_ok (FileByLine [10, 20, 30::nat])"
  have r: "returned (run env_ok ?s0 sched_ok)"
    by code_simp
  have o: "style flags_ok = ''stress'' \<and> openLog env_ok 0 (opsFilename flags_ok) = Inr [10, 20, 30]"
    by (simp add: flags_ok_def env_ok_def)
  from counter_equals_operations_released [OF main_setup_ok refl, of sched_ok] r o
  have "opsExecuted (run env_ok ?s0 sched_ok) = released (run env_ok ?s0 sched_ok)"
    and "opsExecuted (run env_ok ?s0 sched_ok) = 2"
    by (simp_all add: flags_ok_def)
  with r main_setup_ok show ?thesis by simp
qed

text \<open>
  Claim C4. In every state of every run each worker has received at most one termination
  marker and sent at most one completion signal: one marker exactly when it has left its
  loop, one signal exactly when it is done. A worker at its receive that finds a marker
  leaves its loop. Once the dispatcher has stopped, the markers still in the channel and
  the workers that have received one add up to the worker count, so a marker waits for
  every worker that has not had one. When \<open>main\<close> has returned it has received a signal
  from every worker, every worker is done and has received exactly one marker and sent
  exactly one signal, and the channel is empty. No worker waits forever: every
  effective step of a goroutine other than the reporting one makes \<open>work_left\<close> smaller,
  while the process is alive one of them can take an effective step (the channel having
  room for at least one item), and where no dial and no opening of the log fails the run
  can always be continued to the return of \<open>main\<close>.
\<close>

theorem workers_observe_one_marker_and_main_waits:
  "main_setup env f = (cs, Inr s0) \<Longrightarrow> s = run env s0 sched \<Longrightarrow>
     (\<forall>i<nat (workers f).
         markersSeen s ! i = (if wks s ! i = WExit \<or> wks s ! i = WDone then 1 else 0) \<and>
         exitSent s ! i = (if wks s ! i = WDone then 1 else 0)) \<and>
     (\<forall>i q. running s \<and> i < nat (workers f) \<and> wks s ! i = WRecv \<and> opsChan s = None # q \<longrightarrow>
         wks (step env (Worker i) s) ! i = WExit) \<and>
     (dpc s = DStopped \<longrightarrow>
         markers_in (opsChan s) + cnt past (wks s) = nat (workers f)) \<and>
     (returned s \<longrightarrow>
         received s = workers f \<and>
         wks s = replicate (nat (workers f)) WDone \<and>
         markersSeen s = replicate (nat (workers f)) 1 \<and>
         exitSent s = replicate (nat (workers f)) 1 \<and>
         opsChan s = []) \<and>
     (\<forall>t. t \<noteq> Reporter \<and> step env t s \<noteq> s \<longrightarrow> work_left (step env t s) < work_left s) \<and>
     (0 < qcap env \<and> running s \<longrightarrow> (\<exists>t. t \<noteq> Reporter \<and> step env t s \<noteq> s)) \<and>
     (0 < qcap env \<and> (\<forall>i u. dial env i u = None) \<and> (\<forall>n name. \<not> isl (openLog env n name)) \<longrightarrow>
         (\<exists>sched'. returned (run env s sched')))"
proof -
  assume m: "main_setup env f = (cs, Inr s0)" and s: "s = run env s0 sched"
  from invariant_main_setup [OF m] s have inv: "invariant s"
    by (simp add: invariant_run)
  from main_setup_workers [OF m] s have w: "workers (cfg s) = workers f"
    and c0: "crashed s0 = None"
    by (simp_all add: run_cfg)
  from inv w have len: "length (wks s) = nat (workers f)"
    by (simp add: invariant_def)
  have 1: "\<forall>i<nat (workers f).
         markersSeen s ! i = (if wks s ! i = WExit \<or> wks s ! i = WDone then 1 else 0) \<and>
         exitSent s ! i = (if wks s ! i = WDone then 1 else 0)"
    using invariant_counters [OF inv] len by (simp add: past_def)
  have 2: "\<forall>i q. running s \<and> i < nat (workers f) \<and> wks s ! i = WRecv \<and> opsChan s = None # q \<longrightarrow>
         wks (step env (Worker i) s) ! i = WExit"
    using worker_leaves_loop [of s _ _ env] len by auto
  have 3: "dpc s = DStopped \<longrightarrow> markers_in (opsChan s) + cnt past (wks s) = nat (workers f)"
    using inv w by (auto simp: invariant_def)
  have 4: "returned s \<longrightarrow>
         received s = workers f \<and>
         wks s = replicate (nat (workers f)) WDone \<and>
         markersSeen s = replicate (nat (workers f)) 1 \<and>
         exitSent s = replicate (nat (workers f)) 1 \<and>
         opsChan s = []"
    using invariant_returned [OF inv] w by simp
  have 5: "\<forall>t. t \<noteq> Reporter \<and> step env t s \<noteq> s \<longrightarrow> work_left (step env t s) < work_left s"
    using work_left_step [OF inv] by blast
  have 6: "0 < qcap env \<and> running s \<longrightarrow> (\<exists>t. t \<noteq> Reporter \<and> step env t s \<noteq> s)"
    using progress [OF inv] by blast
  have 7: "0 < qcap env \<and> (\<forall>i u. dial env i u = None) \<and> (\<forall>n name. \<not> isl (openLog env n name)) \<longrightarrow>
         (\<exists>sched'. returned (run env s sched'))"
  proof
    assume h: "0 < qcap env \<and> (\<forall>i u. dial env i u = None) \<and> (\<forall>n name. \<not> isl (openLog env n name))"
    with termination_reachable [OF inv] obtain sched' where e: "\<not> running (run env s sched')"
      by blast
    from h c0 have "crashed (run env s0 (sched @ sched')) = None"
      by (intro no_crash_run) simp_all
    with e s have "returned (run env s sched')"
      by (simp add: running_def run_append)
    then show "\<exists>sched'. returned (run env s sched')" ..
  qed
  from 1 2 3 4 5 6 7 show ?thesis by blast
qed

theorem workers_observe_one_marker_and_main_waits_witness:
  "\<exists>cs s0. main_setup env_ok flags_ok = (cs, Inr s0) \<and>
      dpc (run env_ok s0 (take 12 sched_ok)) = DStopped \<and>
      markers_in (opsChan (run env_ok s0 (take 12 sched_ok))) = 2 \<and>
      opsChan (run env_ok s0 (take 14 sched_ok)) = [None, None] \<and>
      wks (run env_ok s0 (take 14 sched_ok)) ! 0 = WRecv \<and>
      wks (step env_ok (Worker 0) (run env_ok s0 (take 14 sched_ok))) ! 0 = WExit \<and>
      returned (run env_ok s0 sched_ok) \<and>
      received (run env_ok s0 sched_ok) = 2 \<and>
      wks (run env_ok s0 sched_ok) = [WDone, WDone] \<and>
      markersSeen (run env_ok s0 sched_ok) = [1, 1] \<and>
      exitSent (run env_ok s0 sched_ok) = [1, 1] \<and>
      step env_ok Dispatcher s0 \<noteq> s0 \<and>
      work_left (step env_ok Dispatcher s0) < work_left s0 \<and>
      (\<exists>sched'. returned (run env_ok s0 sched'))"
proof -
  let ?s0 = "start flags_ok (FileByLine [10, 20, 30::nat])"
  note c4 = workers_observe_one_marker_and_main_waits [OF main_setup_ok refl]
  have n: "nat (workers flags_ok) = 2" "workers flags_ok = 2"
    by (simp_all add: flags_ok_def)
  have r: "returned (run env_ok ?s0 sched_ok)"
    by code_simp
  have d: "dpc (run env_ok ?s0 (take 12 sched_ok)) = DStopped"
    by code_simp
  have p: "cnt past (wks (run env_ok ?s0 (take 12 sched_ok))) = 0"
    by code_simp
  from c4 [of "take 12 sched_ok"] d p n
  have a: "markers_in (opsChan (run env_ok ?s0 (take 12 sched_ok))) = 2"
    by simp
  have q: "opsChan (run env_ok ?s0 (take 14 sched_ok)) = [None, None]"
    and w: "wks (run env_ok ?s0 (take 14 sched_ok)) ! 0 = WRecv"
    and u: "running (run env_ok ?s0 (take 14 sched_ok))"
    by code_simp+
  from c4 [of "take 14 sched_ok"] q w u n
  have b: "wks (step env_ok (Worker 0) (run env_ok ?s0 (take 14 sched_ok))) ! 0 = WExit"
    by simp
  from c4 [of sched_ok] r n
  have c: "received (run env_ok ?s0 sched_ok) = 2 \<and>
      wks (run env_ok ?s0 sched_ok) = [WDone, WDone] \<and>
      markersSeen (run env_ok ?s0 sched_ok) = [1, 1] \<and>
      exitSent (run env_ok ?s0 sched_ok) = [1, 1]"
    by (simp add: numeral_2_eq_2)
  have e: "step env_ok Dispatcher ?s0 \<noteq> ?s0"
  proof
    assume "step env_ok Dispatcher ?s0 = ?s0"
    then have "dpc (step env_ok Dispatcher ?s0) = dpc ?s0" by simp
    moreover have "dpc (step env_ok Dispatcher ?s0) = DSend 10" by code_simp
    moreover have "dpc (start flags_ok (FileByLine [10, 20, 30::nat])) = DLoop" by (simp add: start_def)
    ultimately show False by simp
  qed
  from c4 [of "[]"]
  have "\<forall>t. t \<noteq> Reporter \<and> step env_ok t ?s0 \<noteq> ?s0 \<longrightarrow>
          work_left (step env_ok t ?s0) < work_left ?s0"
    unfolding run.simps by (elim conjE) assumption
  with e have f: "work_left (step env_ok Dispatcher ?s0) < work_left ?s0"
    by blast
  have "0 < qcap env_ok \<and> (\<forall>i u. dial env_ok i u = None) \<and>
      (\<forall>n name. \<not> isl (openLog env_ok n name))"
    by (simp add: env_ok_def)
  moreover from c4 [of "[]"]
  have "0 < qcap env_ok \<and> (\<forall>i u. dial env_ok i u = None) \<and>
      (\<forall>n name. \<not> isl (openLog env_ok n name)) \<longrightarrow>
      (\<exists>sched'. returned (run env_ok ?s0 sched'))"
    unfolding run.simps by (elim conjE) assumption
  ultimately have g: "\<exists>sched'. returned (run env_ok ?s0 sched')"
    by blast
  from a b c d e f g q r w main_setup_ok show ?thesis by simp
qed

text \<open>
  Claim C5. Source errors and connection errors are fatal. When the log cannot be
  opened, \<open>main\<close> panics with the error, in either style. When
  the cyclic reader has exhausted its current pass and the factory cannot open the log
  again, the dispatcher's step is a panic with that error. When a worker cannot dial,
  its step is a panic with that error. A panic leaves the rest of the state as it was
  and ends the run: from there no goroutine takes a step, so nothing is retried and
  nothing more is executed.
\<close>

theorem source_and_connection_errors_fatal:
  "(parseFlags f = Inr g \<and> openLog env 0 (opsFilename g) = Inl e \<longrightarrow>
      snd (main_setup env f) = Inl e) \<and>
   (running s \<and> dpc s = DLoop \<and> released s < dcap s \<and> reader s = Cyclic [] n \<and>
    openLog env n (opsFilename (cfg s)) = Inl e \<longrightarrow>
      step env Dispatcher s = s\<lparr>crashed := Some e\<rparr>) \<and>
   (running s \<and> i < length (wks s) \<and> wks s ! i = WStart \<and>
    dial env i (url (cfg s)) = Some e \<longrightarrow>
      step env (Worker i) s = s\<lparr>crashed := Some e\<rparr>) \<and>
   (\<forall>t. step env t (s\<lparr>crashed := Some e\<rparr>) = s\<lparr>crashed := Some e\<rparr>) \<and>
   run env (s\<lparr>crashed := Some e\<rparr>) sched = s\<lparr>crashed := Some e\<rparr>"
proof (intro conjI impI allI)
  assume a: "parseFlags f = Inr g \<and> openLog env 0 (opsFilename g) = Inl e"
  show "snd (main_setup env f) = Inl e"
  proof (cases "style g = ''stress''")
    case True
    with a show ?thesis by (simp add: main_setup_stress)
  next
    case False
    with a show ?thesis by (simp add: main_setup_real)
  qed
next
  assume "running s \<and> dpc s = DLoop \<and> released s < dcap s \<and> reader s = Cyclic [] n \<and>
    openLog env n (opsFilename (cfg s)) = Inl e"
  then show "step env Dispatcher s = s\<lparr>crashed := Some e\<rparr>"
    by (simp add: step_running dispatcher_step_def factory_eq crash_def)
next
  assume "running s \<and> i < length (wks s) \<and> wks s ! i = WStart \<and>
    dial env i (url (cfg s)) = Some e"
  then show "step env (Worker i) s = s\<lparr>crashed := Some e\<rparr>"
    by (simp add: step_running worker_step_def crash_def)
next
  fix t show "step env t (s\<lparr>crashed := Some e\<rparr>) = s\<lparr>crashed := Some e\<rparr>"
    by (simp add: step_def)
next
  show "run env (s\<lparr>crashed := Some e\<rparr>) sched = s\<lparr>crashed := Some e\<rparr>"
    by (simp add: crashed_run)
qed

theorem source_and_connection_errors_fatal_witness:
  "snd (main_setup env_nolog flags_ok) = Inl ''no such file or directory'' \<and>
   snd (main_setup env_nolog flags_real) = Inl ''no such file or directory'' \<and>
   snd (main_setup env_reopen flags_real) = Inr (start flags_real (Cyclic [10] 1)) \<and>
   crashed (run env_reopen (start flags_real (Cyclic [10] 1)) [Dispatcher, Dispatcher, Dispatcher])
     = Some ''no such file or directory'' \<and>
   crashed (run env_nodial (start flags_ok (FileByLine [10, 20, 30])) [Worker 1])
     = Some ''no reachable servers'' \<and>
   opsExecuted (run env_nodial (start flags_ok (FileByLine [10, 20, 30])) (Worker 1 # sched_ok)) = 0"
proof -
  let ?e = "''no such file or directory''"
  have p1: "parseFlags flags_ok = Inr flags_ok" and p2: "parseFlags flags_real = Inr flags_real"
    by (simp_all add: parseFlags_def flags_real_def flags_ok_def)
  have o: "openLog env_nolog 0 (opsFilename flags_ok) = Inl ?e"
    "openLog env_nolog 0 (opsFilename flags_real) = Inl ?e"
    by (simp_all add: env_nolog_def)
  from source_and_connection_errors_fatal [of flags_ok flags_ok env_nolog ?e] p1 o
  have a: "snd (main_setup env_nolog flags_ok) = Inl ?e" by blast
  from source_and_connection_errors_fatal [of flags_real flags_real env_nolog ?e] p2 o
  have b: "snd (main_setup env_nolog flags_real) = Inl ?e" by blast
  let ?s = "run env_reopen (start flags_real (Cyclic [10::nat] 1)) [Dispatcher, Dispatcher]"
  have h: "running ?s \<and> dpc ?s = DLoop \<and> released ?s < dcap ?s \<and> reader ?s = Cyclic [] 1 \<and>
    openLog env_reopen 1 (opsFilename (cfg ?s)) = Inl ?e"
    by code_simp
  from source_and_connection_errors_fatal [of _ _ env_reopen ?e ?s 1] h
  have "step env_reopen Dispatcher ?s = ?s\<lparr>crashed := Some ?e\<rparr>" by blast
  then have c: "crashed (run env_reopen (start flags_real (Cyclic [10] 1))
      [Dispatcher, Dispatcher, Dispatcher]) = Some ?e"
    by simp
  let ?d = "''no reachable servers''"
  let ?s0 = "start flags_ok (FileByLine [10, 20, 30::nat])"
  have h': "running ?s0 \<and> 1 < length (wks ?s0) \<and> wks ?s0 ! 1 = WStart \<and>
    dial env_nodial 1 (url (cfg ?s0)) = Some ?d"
    by code_simp
  note t = source_and_connection_errors_fatal [of _ _ env_nodial ?d ?s0 _ 1 sched_ok]
  from t h' have st: "step env_nodial (Worker 1) ?s0 = ?s0\<lparr>crashed := Some ?d\<rparr>" by blast
  then have d: "crashed (run env_nodial ?s0 [Worker 1]) = Some ?d" by simp
  from t have "run env_nodial (?s0\<lparr>crashed := Some ?d\<rparr>) sched_ok = ?s0\<lparr>crashed := Some ?d\<rparr>"
    by blast
  with st have e: "opsExecuted (run env_nodial ?s0 (Worker 1 # sched_ok)) = 0"
    by (simp add: start_def)
  from a b c d e main_setup_reopen show ?thesis by simp
qed

text \<open>
  The reader that set-up chooses. A run that starts has style \<open>stress\<close> or \<open>real\<close>. With
  \<open>stress\<close> the reader is the file reader itself, no cyclic reader is constructed, the
  dispatcher is the best-effort one, and the reader yields the records of the log and
  then signals its end. With \<open>real\<close> the file reader is wrapped in a cyclic reader and the
  dispatcher is the one paced by time; if every opening of the log yields at least one
  record, any number of calls of \<open>Next\<close> each return a record.
\<close>

lemma style_determines_reader:
  "main_setup env f = (cs, Inr s0) \<Longrightarrow>
     (style f = ''stress'' \<or> style f = ''real'') \<and>
     (style f = ''stress'' \<longrightarrow>
        (\<exists>r. openLog env 0 (opsFilename f) = Inr r \<and> reader s0 = FileByLine r \<and>
             CyclicOpsReader \<notin> set cs \<and> BestEffortOpsDispatcher (dcap s0) \<in> set cs \<and>
             pull (factory env (opsFilename f)) (Suc (length r)) (reader s0)
               = Inr (map Some r @ [None], FileByLine []))) \<and>
     (style f = ''real'' \<longrightarrow>
        (\<exists>r. openLog env 0 (opsFilename f) = Inr r \<and> reader s0 = Cyclic r 1 \<and>
             CyclicOpsReader \<in> set cs \<and> ByTimeOpsDispatcher (dcap s0) \<in> set cs) \<and>
        ((\<forall>n. \<exists>x xs. openLog env n (opsFilename f) = Inr (x # xs)) \<longrightarrow>
           (\<forall>k. \<exists>ys rd. pull (factory env (opsFilename f)) k (reader s0) = Inr (map Some ys, rd) \<and>
                  length ys = k)))"
proof -
  assume m: "main_setup env f = (cs, Inr s0)"
  from main_setup_start [OF m] obtain g r where g: "parseFlags f = Inr g"
    and o: "openLog env 0 (opsFilename g) = Inr r"
    and s0: "s0 = start g (if style g = ''stress'' then FileByLine r else Cyclic r 1)"
    by blast
  from parseFlags_Inr [OF g] have st: "style f = ''stress'' \<or> style f = ''real''"
    and sg: "style g = style f" and ng: "opsFilename g = opsFilename f"
    by auto
  from main_setup_cfg [OF m] g have c: "cfg s0 = g" "dcap s0 = maxOps g" by simp_all
  note cr = main_setup_created [OF m]
  have 1: "style f = ''stress'' \<longrightarrow>
        (\<exists>r. openLog env 0 (opsFilename f) = Inr r \<and> reader s0 = FileByLine r \<and>
             CyclicOpsReader \<notin> set cs \<and> BestEffortOpsDispatcher (dcap s0) \<in> set cs \<and>
             pull (factory env (opsFilename f)) (Suc (length r)) (reader s0)
               = Inr (map Some r @ [None], FileByLine []))"
  proof
    assume a: "style f = ''stress''"
    with s0 sg have rd: "reader s0 = FileByLine r" by (simp add: start_def)
    from cr a sg c have "CyclicOpsReader \<notin> set cs \<and> BestEffortOpsDispatcher (dcap s0) \<in> set cs"
      by (auto simp: spawn_def)
    with o ng rd pull_file [of "factory env (opsFilename f)" r]
    show "\<exists>r. openLog env 0 (opsFilename f) = Inr r \<and> reader s0 = FileByLine r \<and>
             CyclicOpsReader \<notin> set cs \<and> BestEffortOpsDispatcher (dcap s0) \<in> set cs \<and>
             pull (factory env (opsFilename f)) (Suc (length r)) (reader s0)
               = Inr (map Some r @ [None], FileByLine [])"
      by auto
  qed
  have 2: "style f = ''real'' \<longrightarrow>
        (\<exists>r. openLog env 0 (opsFilename f) = Inr r \<and> reader s0 = Cyclic r 1 \<and>
             CyclicOpsReader \<in> set cs \<and> ByTimeOpsDispatcher (dcap s0) \<in> set cs) \<and>
        ((\<forall>n. \<exists>x xs. openLog env n (opsFilename f) = Inr (x # xs)) \<longrightarrow>
           (\<forall>k. \<exists>ys rd. pull (factory env (opsFilename f)) k (reader s0) = Inr (map Some ys, rd) \<and>
                  length ys = k))"
  proof (intro impI conjI allI)
    assume a: "style f = ''real''"
    with s0 sg have rd: "reader s0 = Cyclic r 1" by (simp add: start_def)
    from cr a sg c have "CyclicOpsReader \<in> set cs \<and> ByTimeOpsDispatcher (dcap s0) \<in> set cs"
      by auto
    with o ng rd
    show "\<exists>r. openLog env 0 (opsFilename f) = Inr r \<and> reader s0 = Cyclic r 1 \<and>
             CyclicOpsReader \<in> set cs \<and> ByTimeOpsDispatcher (dcap s0) \<in> set cs"
      by auto
    fix k assume "\<forall>n. \<exists>x xs. openLog env n (opsFilename f) = Inr (x # xs)"
    then have "\<forall>n. \<exists>x xs. factory env (opsFilename f) n = Inr (x # xs)"
      by (simp add: factory_eq)
    from pull_cyclic [OF this, of k r 1] rd
    show "\<exists>ys rd. pull (factory env (opsFilename f)) k (reader s0) = Inr (map Some ys, rd) \<and>
                  length ys = k"
      by auto
  qed
  from st 1 2 show ?thesis by blast
qed

lemma style_determines_reader_example:
  "(\<exists>cs s0. main_setup env_ok flags_ok = (cs, Inr s0) \<and>
      reader s0 = FileByLine [10, 20, 30] \<and> CyclicOpsReader \<notin> set cs \<and>
      pull (factory env_ok ''ops.json'') 4 (reader s0)
        = Inr ([Some 10, Some 20, Some 30, None], FileByLine [])) \<and>
   (\<exists>cs s0. main_setup env_ok flags_real = (cs, Inr s0) \<and>
      reader s0 = Cyclic [10, 20, 30] 1 \<and> CyclicOpsReader \<in> set cs \<and>
      (\<exists>ys rd. pull (factory env_ok ''ops.json'') 7 (reader s0) = Inr (map Some ys, rd) \<and>
         length ys = 7) \<and>
      pull (factory env_ok ''ops.json'') 7 (reader s0)
        = Inr (map Some [10, 20, 30, 10, 20, 30, 10], Cyclic [20, 30] 3))"
proof -
  have f: "style flags_ok = ''stress''" "style flags_real = ''real''"
    "opsFilename flags_ok = ''ops.json''" "opsFilename flags_real = ''ops.json''"
    by (simp_all add: flags_real_def flags_ok_def)
  have o: "openLog env_ok 0 ''ops.json'' = Inr [10, 20, 30]"
    "\<forall>n. \<exists>x xs. openLog env_ok n ''ops.json'' = Inr (x # xs)"
    by (simp_all add: env_ok_def)
  from style_determines_reader [OF main_setup_ok] f o
  have a: "CyclicOpsReader \<notin> set ([FileByLineOpsReader ''ops.json'', BestEffortOpsDispatcher 2,
      LatencyChan 2, ExitChan] @ spawn flags_ok) \<and>
    pull (factory env_ok ''ops.json'') (Suc (length [10, 20, 30::nat]))
      (reader (start flags_ok (FileByLine [10, 20, 30::nat])))
        = Inr (map Some [10, 20, 30] @ [None], FileByLine [])"
    by auto
  from style_determines_reader [OF main_setup_real_ok] f o
  have b: "\<exists>ys rd. pull (factory env_ok ''ops.json'') 7
      (reader (start flags_real (Cyclic [10, 20, 30::nat] 1))) = Inr (map Some ys, rd) \<and>
         length ys = 7"
    by auto
  have c: "pull (factory env_ok ''ops.json'') 7 (Cyclic [10, 20, 30] 1)
        = Inr (map Some [10, 20, 30, 10, 20, 30, 10], Cyclic [20, 30] 3)"
    by code_simp
  from a b c main_setup_ok main_setup_real_ok show ?thesis
    by (simp add: start_def numeral_eq_Suc)
qed

text \<open>
  Claim C2 fails on this run. The reporting goroutine tests its loop once, while the
  counter is below \<open>maxOps\<close>, and goes to sleep; the two operations are executed, the
  counter reaches \<open>maxOps\<close>, the workers signal and \<open>main\<close> returns, which ends the process.
  No report has been produced, neither a periodic one nor the deferred final one, and
  none can be: further steps of the reporting goroutine change nothing.
\<close>

theorem final_report_missed_run:
  "snd (main_setup env_ok flags_ok) = Inr (start flags_ok (FileByLine [10, 20, 30])) \<and>
   returned (run env_ok (start flags_ok (FileByLine [10, 20, 30])) (Reporter # sched_ok)) \<and>
   opsExecuted (run env_ok (start flags_ok (FileByLine [10, 20, 30])) (Reporter # sched_ok)) = maxOps flags_ok \<and>
   periodic (run env_ok (start flags_ok (FileByLine [10, 20, 30])) (Reporter # sched_ok)) = 0 \<and>
   final (run env_ok (start flags_ok (FileByLine [10, 20, 30])) (Reporter # sched_ok)) = 0 \<and>
   final (run env_ok (start flags_ok (FileByLine [10, 20, 30])) (Reporter # sched_ok @ [Reporter, Reporter])) = 0"
proof -
  have "returned (run env_ok (start flags_ok (FileByLine [10, 20, 30])) (Reporter # sched_ok))"
    "opsExecuted (run env_ok (start flags_ok (FileByLine [10, 20, 30])) (Reporter # sched_ok)) = maxOps flags_ok"
    "periodic (run env_ok (start flags_ok (FileByLine [10, 20, 30])) (Reporter # sched_ok)) = 0"
    "final (run env_ok (start flags_ok (FileByLine [10, 20, 30])) (Reporter # sched_ok)) = 0"
    "final (run env_ok (start flags_ok (FileByLine [10, 20, 30])) (Reporter # sched_ok @ [Reporter, Reporter])) = 0"
    by code_simp+
  with main_setup_ok show ?thesis by simp
qed

text \<open>
  Claim C7 fails on this run. After the dispatcher has released an operation and the
  first worker has received it, the worker's next step adds to \<open>opsExecuted\<close> atomically
  and the next step of the reporting goroutine reads \<open>opsExecuted\<close> plainly; both steps
  can be taken from that state, in either order.
\<close>

theorem counter_read_unsynchronized_run:
  "counter_access (Worker 0)
     (run env_ok (start flags_ok (FileByLine [10, 20, 30])) [Dispatcher, Dispatcher, Worker 0, Worker 0])
     = Some AtomicAdd \<and>
   counter_access Reporter
     (run env_ok (start flags_ok (FileByLine [10, 20, 30])) [Dispatcher, Dispatcher, Worker 0, Worker 0])
     = Some PlainRead \<and>
   opsExecuted (run env_ok (start flags_ok (FileByLine [10, 20, 30]))
     [Dispatcher, Dispatcher, Worker 0, Worker 0, Worker 0]) = 1 \<and>
   rpc (run env_ok (start flags_ok (FileByLine [10, 20, 30]))
     [Dispatcher, Dispatcher, Worker 0, Worker 0, Reporter]) = RSleep"
  by code_simp

end
